theory Spec2Isabelle
  imports Main "HOL-Library.Sublist"
begin

section \<open>JavaScript strings\<close>

text \<open>
  The program under study is \<^verbatim>\<open>normalizeAIContent\<close> of \<^verbatim>\<open>src/pages/ChatApp.tsx\<close>: a
  pure function from a string to a string. A JavaScript string is a sequence of UTF-16
  code units, modelled as a list of natural numbers (every code unit is below 65536; the
  functions below are total on all naturals and nothing depends on the bound).
  \<open>js\<close> turns an ASCII literal into its code units.
\<close>

type_synonym jsstring = "nat list"

definition js :: "string \<Rightarrow> jsstring" where
  "js s = map of_char s"

text \<open>
  The character classes of ECMAScript regular expressions without the \<^verbatim>\<open>u\<close> flag.
  \<^verbatim>\<open>\s\<close> and \<^verbatim>\<open>String.prototype.trim\<close> use the same set: WhiteSpace (TAB, VT, FF, SP,
  NBSP, ZWNBSP and the Unicode space separators) and LineTerminator (LF, CR, LS, PS).
  \<^verbatim>\<open>.\<close> is every code unit but the line terminators; \<^verbatim>\<open>\b\<close> looks at the word
  characters \<^verbatim>\<open>[A-Za-z0-9_]\<close>.
\<close>

definition isLineTerminator :: "nat \<Rightarrow> bool" where
  "isLineTerminator c = (c = 10 \<or> c = 13 \<or> c = 8232 \<or> c = 8233)"

definition isWhiteSpace :: "nat \<Rightarrow> bool" where
  "isWhiteSpace c =
     (c = 9 \<or> c = 11 \<or> c = 12 \<or> c = 32 \<or> c = 160 \<or> c = 65279 \<or>
      c = 5760 \<or> (8192 \<le> c \<and> c \<le> 8202) \<or> c = 8239 \<or> c = 8287 \<or> c = 12288 \<or>
      isLineTerminator c)"

definition isWordChar :: "nat \<Rightarrow> bool" where
  "isWordChar c =
     ((97 \<le> c \<and> c \<le> 122) \<or> (65 \<le> c \<and> c \<le> 90) \<or> (48 \<le> c \<and> c \<le> 57) \<or> c = 95)"

text \<open>
  Canonicalize of the \<^verbatim>\<open>i\<close> flag. The only case-insensitive patterns of the program are
  made of ASCII letters, and ECMAScript never canonicalizes a code unit of 128 or more to
  one below 128, so only the ASCII fold decides a comparison with a pattern character.
\<close>

definition canonicalize :: "nat \<Rightarrow> nat" where
  "canonicalize c = (if 97 \<le> c \<and> c \<le> 122 then c - 32 else c)"

definition trim :: "jsstring \<Rightarrow> jsstring" where
  "trim s = rev (dropWhile isWhiteSpace (rev (dropWhile isWhiteSpace s)))"

text \<open>\<^verbatim>\<open>s.split("\n")\<close> and \<^verbatim>\<open>lines.join("\n")\<close>; the split of a string is never empty.\<close>

fun split_lines :: "jsstring \<Rightarrow> jsstring list" where
  "split_lines [] = [[]]"
| "split_lines (c # cs) =
     (if c = 10 then [] # split_lines cs
      else (case split_lines cs of
              [] \<Rightarrow> [[c]]
            | l # ls \<Rightarrow> (c # l) # ls))"

fun join_lines :: "jsstring list \<Rightarrow> jsstring" where
  "join_lines [] = []"
| "join_lines [l] = l"
| "join_lines (l # l' # ls) = l @ 10 # join_lines (l' # ls)"

section \<open>Regular expressions\<close>

text \<open>
  The fragment of ECMAScript regular expressions that the program uses: literal text,
  the greedy quantifiers \<^verbatim>\<open>*\<close>, \<^verbatim>\<open>+\<close> and \<^verbatim>\<open>{2,}\<close> on a character class
  (\<open>Rep n c\<close> is \<^verbatim>\<open>c{n,}\<close>), sequence, alternation and the assertions \<^verbatim>\<open>^\<close>, \<^verbatim>\<open>$\<close>
  and \<^verbatim>\<open>\b\<close>.
\<close>

datatype cls = SpaceCls | DotCls

fun in_cls :: "cls \<Rightarrow> nat \<Rightarrow> bool" where
  "in_cls SpaceCls c = isWhiteSpace c"
| "in_cls DotCls c = (\<not> isLineTerminator c)"

datatype rx = Lit jsstring | Rep nat cls | Seq rx rx | Alt rx rx | Bol | Eol | WordB

record flags =
  ignoreCase :: bool
  multiline :: bool

definition no_flags :: flags where
  "no_flags = \<lparr>ignoreCase = False, multiline = False\<rparr>"

definition flag_i :: flags where
  "flag_i = \<lparr>ignoreCase = True, multiline = False\<rparr>"

definition flag_m :: flags where
  "flag_m = \<lparr>ignoreCase = False, multiline = True\<rparr>"

definition char_eq :: "flags \<Rightarrow> nat \<Rightarrow> nat \<Rightarrow> bool" where
  "char_eq f a b = (if ignoreCase f then canonicalize a = canonicalize b else a = b)"

fun lit_match :: "flags \<Rightarrow> jsstring \<Rightarrow> jsstring \<Rightarrow> bool" where
  "lit_match f [] r = True"
| "lit_match f (p # ps) [] = False"
| "lit_match f (p # ps) (c # cs) = (char_eq f p c \<and> lit_match f ps cs)"

text \<open>
  The backtracking matcher. A position in the input is a pair \<open>(l, r)\<close>: the code units
  to the left of the position, nearest first, and those to the right. \<open>run f e z\<close> lists
  the positions at which a match of \<open>e\<close> that starts at \<open>z\<close> can end, in the order in
  which the backtracking of ECMAScript tries them (a greedy quantifier tries the
  longest repetition first, an alternation its left side first).
\<close>

fun run :: "flags \<Rightarrow> rx \<Rightarrow> jsstring \<times> jsstring \<Rightarrow> (jsstring \<times> jsstring) list" where
  "run f (Lit p) (l, r) =
     (if lit_match f p r then [(rev (take (length p) r) @ l, drop (length p) r)] else [])"
| "run f (Rep n c) (l, r) =
     map (\<lambda>j. (rev (take j r) @ l, drop j r))
       (rev [n ..< Suc (length (takeWhile (in_cls c) r))])"
| "run f (Seq a b) z = concat (map (run f b) (run f a z))"
| "run f (Alt a b) z = run f a z @ run f b z"
| "run f Bol (l, r) =
     (case l of
        [] \<Rightarrow> [(l, r)]
      | c # _ \<Rightarrow> if multiline f \<and> isLineTerminator c then [(l, r)] else [])"
| "run f Eol (l, r) =
     (case r of
        [] \<Rightarrow> [(l, r)]
      | c # _ \<Rightarrow> if multiline f \<and> isLineTerminator c then [(l, r)] else [])"
| "run f WordB (l, r) =
     (if (case l of [] \<Rightarrow> False | c # _ \<Rightarrow> isWordChar c)
         \<noteq> (case r of [] \<Rightarrow> False | c # _ \<Rightarrow> isWordChar c)
      then [(l, r)] else [])"

text \<open>
  \<^verbatim>\<open>RegExpBuiltinExec\<close>: the match is tried at every index from 0 to the length of the
  input, and the first index with a match wins. The result is the text to the left of
  the match (nearest first) and the text to the right of it.
\<close>

fun search :: "flags \<Rightarrow> rx \<Rightarrow> jsstring \<Rightarrow> jsstring \<Rightarrow> (jsstring \<times> jsstring) option" where
  "search f e l [] =
     (case run f e (l, []) of
        [] \<Rightarrow> None
      | z # _ \<Rightarrow> Some (l, snd z))"
| "search f e l (c # cs) =
     (case run f e (l, c # cs) of
        [] \<Rightarrow> search f e (c # l) cs
      | z # _ \<Rightarrow> Some (l, snd z))"

text \<open>\<^verbatim>\<open>re.test(s)\<close>, and \<^verbatim>\<open>s.replace(re, rep)\<close> for an expression without the \<^verbatim>\<open>g\<close> flag.\<close>

definition rx_test :: "flags \<Rightarrow> rx \<Rightarrow> jsstring \<Rightarrow> bool" where
  "rx_test f e s = (search f e [] s \<noteq> None)"

definition rx_replace :: "flags \<Rightarrow> rx \<Rightarrow> jsstring \<Rightarrow> jsstring \<Rightarrow> jsstring" where
  "rx_replace f e rep s =
     (case search f e [] s of
        None \<Rightarrow> s
      | Some (l, rest) \<Rightarrow> rev l @ rep @ rest)"

text \<open>
  The number of matches that \<^verbatim>\<open>s.match(re)\<close> returns for an expression with the \<^verbatim>\<open>g\<close>
  flag: after a match the search goes on where the match ended (one code unit further
  when the match was empty). \<open>k\<close> counts the code units still covered by the last match.
\<close>

fun match_count :: "flags \<Rightarrow> rx \<Rightarrow> nat \<Rightarrow> jsstring \<Rightarrow> jsstring \<Rightarrow> nat" where
  "match_count f e k l [] = (if k = 0 \<and> run f e (l, []) \<noteq> [] then 1 else 0)"
| "match_count f e k l (c # cs) =
     (if 0 < k then match_count f e (k - 1) (c # l) cs
      else (case run f e (l, c # cs) of
              [] \<Rightarrow> match_count f e 0 (c # l) cs
            | z # _ \<Rightarrow> Suc (match_count f e (length (c # cs) - length (snd z) - 1) (c # l) cs)))"

section \<open>The regular expressions of the program\<close>

text \<open>\<^verbatim>\<open>/^Copyhljs\b/i\<close>\<close>

definition rx_copyhljs_line :: rx where
  "rx_copyhljs_line = Seq Bol (Seq (Lit (js ''Copyhljs'')) WordB)"

text \<open>\<^verbatim>\<open>/\s+Copyhljs\b.*$/i\<close>\<close>

definition rx_copyhljs_tail :: rx where
  "rx_copyhljs_tail =
     Seq (Rep 1 SpaceCls) (Seq (Lit (js ''Copyhljs'')) (Seq WordB (Seq (Rep 0 DotCls) Eol)))"

text \<open>\<^verbatim>\<open>/(;|\{|\}|#include|std::|^\s{2,}|^\s*\/\/|^\s*#|^\s*(g\+\+|\.\/|npm |yarn |pnpm ))/\<close>\<close>

definition rx_shell :: rx where
  "rx_shell =
     Alt (Lit (js ''g++'')) (Alt (Lit (js ''./'')) (Alt (Lit (js ''npm ''))
       (Alt (Lit (js ''yarn '')) (Lit (js ''pnpm '')))))"

definition rx_hint :: rx where
  "rx_hint =
     Alt (Lit (js '';'')) (Alt (Lit (js ''{'')) (Alt (Lit (js ''}''))
       (Alt (Lit (js ''#include'')) (Lit (js ''std::'')))))"

definition rx_code_line :: rx where
  "rx_code_line =
     Alt (Lit (js '';'')) (Alt (Lit (js ''{'')) (Alt (Lit (js ''}''))
       (Alt (Lit (js ''#include'')) (Alt (Lit (js ''std::''))
       (Alt (Seq Bol (Rep 2 SpaceCls))
       (Alt (Seq Bol (Seq (Rep 0 SpaceCls) (Lit (js ''//''))))
       (Alt (Seq Bol (Seq (Rep 0 SpaceCls) (Lit (js ''#''))))
            (Seq Bol (Seq (Rep 0 SpaceCls) rx_shell)))))))))"

text \<open>\<^verbatim>\<open>/#include|std::|int\s+main\s*\(/\<close>\<close>

definition rx_cpp :: rx where
  "rx_cpp =
     Alt (Lit (js ''#include'')) (Alt (Lit (js ''std::''))
       (Seq (Lit (js ''int'')) (Seq (Rep 1 SpaceCls) (Seq (Lit (js ''main''))
         (Seq (Rep 0 SpaceCls) (Lit (js ''('')))))))"

text \<open>\<^verbatim>\<open>/^\s*(g\+\+|\.\/|bash\b)/m\<close>\<close>

definition rx_bash :: rx where
  "rx_bash =
     Seq Bol (Seq (Rep 0 SpaceCls)
       (Alt (Lit (js ''g++'')) (Alt (Lit (js ''./'')) (Seq (Lit (js ''bash'')) WordB))))"

text \<open>\<^verbatim>\<open>/^\s*import\s+|^\s*export\s+|=>/\<close>\<close>

definition rx_ts :: rx where
  "rx_ts =
     Alt (Seq Bol (Seq (Rep 0 SpaceCls) (Seq (Lit (js ''import'')) (Rep 1 SpaceCls))))
       (Alt (Seq Bol (Seq (Rep 0 SpaceCls) (Seq (Lit (js ''export'')) (Rep 1 SpaceCls))))
            (Lit (js ''=>'')))"

text \<open>\<^verbatim>\<open>/^\s*def\s+|^\s*class\s+|:\s*$/\<close>\<close>

definition rx_python :: rx where
  "rx_python =
     Alt (Seq Bol (Seq (Rep 0 SpaceCls) (Seq (Lit (js ''def'')) (Rep 1 SpaceCls))))
       (Alt (Seq Bol (Seq (Rep 0 SpaceCls) (Seq (Lit (js ''class'')) (Rep 1 SpaceCls))))
            (Seq (Lit (js '':'')) (Seq (Rep 0 SpaceCls) Eol)))"

text \<open>The fence marker, and \<^verbatim>\<open>/```/\<close>.\<close>

definition fence :: jsstring where
  "fence = js ''```''"

definition rx_fence :: rx where
  "rx_fence = Lit fence"

section \<open>normalizeAIContent\<close>

text \<open>The filter and the map that produce \<^verbatim>\<open>cleanedLines\<close>.\<close>

definition keep_line :: "jsstring \<Rightarrow> bool" where
  "keep_line line =
     (let trimmed = trim line in
      if trimmed = js ''Copy'' then False
      else if rx_test flag_i rx_copyhljs_line trimmed then False
      else True)"

definition strip_tail :: "jsstring \<Rightarrow> jsstring" where
  "strip_tail line = rx_replace flag_i rx_copyhljs_tail [] line"

definition cleanedLines :: "jsstring \<Rightarrow> jsstring list" where
  "cleanedLines content = map strip_tail (filter keep_line (split_lines content))"

definition isCodeLine :: "jsstring \<Rightarrow> bool" where
  "isCodeLine line =
     (let t = trim line in
      if length t = 0 then False
      else rx_test no_flags rx_code_line line)"

definition detectLang :: "jsstring list \<Rightarrow> jsstring option" where
  "detectLang block =
     (let text = join_lines block in
      if rx_test no_flags rx_cpp text then Some (js ''cpp'')
      else if rx_test flag_m rx_bash text then Some (js ''bash'')
      else if rx_test no_flags rx_ts text then Some (js ''ts'')
      else if rx_test no_flags rx_python text then Some (js ''python'')
      else None)"

text \<open>\<^verbatim>\<open>lang || ""\<close>\<close>

definition lang_or_empty :: "jsstring option \<Rightarrow> jsstring" where
  "lang_or_empty lang = (case lang of None \<Rightarrow> [] | Some t \<Rightarrow> t)"

text \<open>\<^verbatim>\<open>xs.slice(start, stop)\<close> for \<open>start \<le> stop \<le> length xs\<close>.\<close>

definition slice :: "'a list \<Rightarrow> nat \<Rightarrow> nat \<Rightarrow> 'a list" where
  "slice xs start stop = take (stop - start) (drop start xs)"

text \<open>
  The inner loop \<^verbatim>\<open>while (i < cleanedLines.length && isCodeLine(cleanedLines[i])) i++\<close>:
  the index at which it stops.
\<close>

function scan_block :: "jsstring list \<Rightarrow> nat \<Rightarrow> nat" where
  "scan_block cl i =
     (if i < length cl \<and> isCodeLine (cl ! i) then scan_block cl (i + 1) else i)"
  by pat_completeness auto
termination
  by (relation "measure (\<lambda>(cl, i). length cl - i)") auto

declare scan_block.simps [simp del]

lemma scan_block_step:
  "i < length cl \<Longrightarrow> isCodeLine (cl ! i) \<Longrightarrow> scan_block cl i = scan_block cl (Suc i)"
  by (subst scan_block.simps) simp

lemma scan_block_stop:
  "\<not> (i < length cl \<and> isCodeLine (cl ! i)) \<Longrightarrow> scan_block cl i = i"
  by (subst scan_block.simps) auto

lemma scan_block_ge: "i \<le> scan_block cl i"
proof (induction cl i rule: scan_block.induct)
  case (1 cl i)
  show ?case
  proof (cases "i < length cl \<and> isCodeLine (cl ! i)")
    case True
    with 1 have "i + 1 \<le> scan_block cl (i + 1)" by simp
    with True show ?thesis by (simp add: scan_block_step)
  next
    case False
    then show ?thesis by (simp add: scan_block_stop)
  qed
qed

lemma scan_block_le: "i \<le> length cl \<Longrightarrow> scan_block cl i \<le> length cl"
proof (induction cl i rule: scan_block.induct)
  case (1 cl i)
  show ?case
  proof (cases "i < length cl \<and> isCodeLine (cl ! i)")
    case True
    with 1 have "scan_block cl (i + 1) \<le> length cl" by simp
    with True show ?thesis by (simp add: scan_block_step)
  next
    case False
    with 1 show ?thesis by (simp add: scan_block_stop)
  qed
qed

lemma scan_block_gt:
  assumes "i < length cl" and "isCodeLine (cl ! i)"
  shows "i < scan_block cl i"
proof -
  have "Suc i \<le> scan_block cl (Suc i)" by (rule scan_block_ge)
  with assms show ?thesis by (simp add: scan_block_step)
qed

text \<open>
  The outer loop \<^verbatim>\<open>while (i < cleanedLines.length) { ... }\<close> with its state: the index
  \<open>i\<close> and the output \<open>out\<close>. A code-like line starts a block, which runs to the index
  at which the inner loop stops, and is pushed between a fence with the detected
  language and a closing fence; any other line is pushed as it is.
\<close>

function group_loop :: "jsstring list \<Rightarrow> nat \<Rightarrow> jsstring list \<Rightarrow> jsstring list" where
  "group_loop cl i out =
     (if i < length cl then
        (if isCodeLine (cl ! i) then
           (let block = slice cl i (scan_block cl i);
                lang = detectLang block
            in group_loop cl (scan_block cl i)
                 (out @ [fence @ lang_or_empty lang] @ block @ [fence]))
         else group_loop cl (i + 1) (out @ [cl ! i]))
      else out)"
  by pat_completeness auto
termination
proof (relation "measure (\<lambda>(cl, i, out). length cl - i)", goal_cases)
  case 1
  show ?case by simp
next
  case (2 cl i out)
  then have "i < scan_block cl i" by (simp add: scan_block_gt)
  with 2 show ?case by simp
next
  case (3 cl i out)
  then show ?case by simp
qed

declare group_loop.simps [simp del]

text \<open>
  The whole function: the staged pass, then the fallback that fences the whole response
  when the staged pass emitted no fence and the text has more than two lines and at
  least two hints.
\<close>

definition staged :: "jsstring \<Rightarrow> jsstring" where
  "staged content = join_lines (group_loop (cleanedLines content) 0 [])"

definition normalizeAIContent :: "jsstring \<Rightarrow> jsstring" where
  "normalizeAIContent content =
     (let cl = cleanedLines content;
          out = group_loop cl 0 [];
          result = join_lines out
      in if \<not> rx_test no_flags rx_fence result then
           (let hintCount = match_count no_flags rx_hint 0 [] result;
                lines = length (split_lines result)
            in if 2 < lines \<and> 2 \<le> hintCount then
                 fence @ lang_or_empty (detectLang cl) @ [10] @ trim result @ [10] @ fence
               else result)
         else result)"

text \<open>
  The blocks of the output, for stating what the loop emits: a prose line, or a maximal
  run of consecutive code-like lines. \<open>emit\<close> is what the loop pushes for a block,
  \<open>content_of\<close> the lines of the input that the block holds.
\<close>

datatype piece = Prose jsstring | Code "jsstring list"

function pieces :: "jsstring list \<Rightarrow> piece list" where
  "pieces [] = []"
| "pieces (l # ls) =
     (if isCodeLine l
      then Code (l # takeWhile isCodeLine ls) # pieces (dropWhile isCodeLine ls)
      else Prose l # pieces ls)"
  by pat_completeness auto
termination
  by (relation "measure length") (auto simp: length_dropWhile_le less_Suc_eq_le)

fun emit :: "piece \<Rightarrow> jsstring list" where
  "emit (Prose l) = [l]"
| "emit (Code block) = [fence @ lang_or_empty (detectLang block)] @ block @ [fence]"

fun content_of :: "piece \<Rightarrow> jsstring list" where
  "content_of (Prose l) = [l]"
| "content_of (Code block) = block"

text \<open>
  The classifier as section 4.2 of the specification words it: a line is code-like if
  it is non-empty after trimming and shows one of the listed signals.
\<close>

definition spec_isCodeLine :: "jsstring \<Rightarrow> bool" where
  "spec_isCodeLine line =
     (trim line \<noteq> [] \<and>
      (sublist (js '';'') line \<or> sublist (js ''{'') line \<or> sublist (js ''}'') line \<or>
       sublist (js ''#include'') line \<or>
       sublist (js ''std::'') line \<or>
       2 \<le> length (takeWhile isWhiteSpace line) \<or>
       prefix (js ''//'') (dropWhile isWhiteSpace line) \<or>
       prefix (js ''#'') (dropWhile isWhiteSpace line) \<or>
       prefix (js ''g++'') (dropWhile isWhiteSpace line) \<or>
       prefix (js ''./'') (dropWhile isWhiteSpace line) \<or>
       prefix (js ''npm '') (dropWhile isWhiteSpace line) \<or>
       prefix (js ''yarn '') (dropWhile isWhiteSpace line) \<or>
       prefix (js ''pnpm '') (dropWhile isWhiteSpace line)))"

text \<open>
  The condition under which \<^verbatim>\<open>normalizeAIContent\<close> takes its fallback branch, as a
  predicate of the staged output \<^verbatim>\<open>result\<close>.
\<close>

definition fallback_applies :: "jsstring \<Rightarrow> bool" where
  "fallback_applies result =
     (\<not> rx_test no_flags rx_fence result \<and>
      2 < length (split_lines result) \<and>
      2 \<le> match_count no_flags rx_hint 0 [] result)"

text \<open>
  Balanced fencing of a list of lines, read as a markdown renderer does: outside a
  block a line that holds a fence marker must start with it and opens a block; inside a
  block a line that holds a fence marker must be the bare marker and closes the block;
  the text must end outside a block.
\<close>

fun balanced :: "bool \<Rightarrow> jsstring list \<Rightarrow> bool" where
  "balanced inside [] = (\<not> inside)"
| "balanced inside (l # ls) =
     (if sublist fence l
      then (if inside then l = fence \<and> balanced False ls
            else prefix fence l \<and> balanced True ls)
      else balanced inside ls)"

text \<open>The fence lines that the loop can push: the marker alone or with one of the four tags.\<close>

definition fence_lines :: "jsstring set" where
  "fence_lines = {js ''```'', js ''```cpp'', js ''```bash'', js ''```ts'', js ''```python''}"

text \<open>
  The mid-line artifact as section 4.1 of the specification words it: one or more
  whitespace characters followed by \<^verbatim>\<open>Copyhljs\<close> as a whole word, without regard to
  case. It is the expression of the tail strip without its final \<^verbatim>\<open>.*$\<close>.
\<close>

definition rx_copyhljs_mid :: rx where
  "rx_copyhljs_mid = Seq (Rep 1 SpaceCls) (Seq (Lit (js ''Copyhljs'')) WordB)"

text \<open>
  A text whose only line terminators are the line feeds that separate its lines: it
  holds no carriage return, line separator or paragraph separator.
\<close>

definition lf_only :: "jsstring \<Rightarrow> bool" where
  "lf_only s = (\<forall>c\<in>set s. isLineTerminator c \<longrightarrow> c = 10)"

section \<open>Strings, lines and the matcher\<close>

lemma split_lines_ne: "split_lines s \<noteq> []"
  by (induction s) (auto split: list.splits)

lemma join_split: "join_lines (split_lines s) = s"
proof (induction s)
  case Nil
  show ?case by simp
next
  case (Cons c cs)
  obtain l ls where sp: "split_lines cs = l # ls"
    using split_lines_ne [of cs] by (cases "split_lines cs") auto
  show ?case
  proof (cases "c = 10")
    case True
    with Cons sp show ?thesis by simp
  next
    case False
    with Cons sp show ?thesis by (cases ls) auto
  qed
qed

lemma split_lines_no_nl: "l \<in> set (split_lines s) \<Longrightarrow> 10 \<notin> set l"
proof (induction s arbitrary: l)
  case Nil
  then show ?case by simp
next
  case (Cons c cs)
  obtain k ks where sp: "split_lines cs = k # ks"
    using split_lines_ne [of cs] by (cases "split_lines cs") auto
  from Cons sp show ?case by (auto split: if_splits)
qed

lemma split_lines_single: "10 \<notin> set l \<Longrightarrow> split_lines l = [l]"
  by (induction l) auto

lemma split_lines_append: "10 \<notin> set l \<Longrightarrow> split_lines (l @ 10 # r) = l # split_lines r"
  by (induction l) auto

lemma split_join:
  "ls \<noteq> [] \<Longrightarrow> \<forall>l\<in>set ls. 10 \<notin> set l \<Longrightarrow> split_lines (join_lines ls) = ls"
proof (induction ls rule: join_lines.induct)
  case 1
  then show ?case by simp
next
  case (2 l)
  then show ?case by (simp add: split_lines_single)
next
  case (3 l l' ls)
  then show ?case by (simp add: split_lines_append)
qed

lemma prefix_skip: "prefix p (a @ c # b) \<Longrightarrow> c \<notin> set p \<Longrightarrow> prefix p a"
  by (auto simp: prefix_append prefix_Cons)

lemma sublist_skip:
  "sublist p (xs @ c # ys) \<Longrightarrow> c \<notin> set p \<Longrightarrow> sublist p xs \<or> sublist p ys"
proof (induction xs)
  case Nil
  then show ?case by (auto simp: sublist_Cons_right prefix_Cons)
next
  case (Cons x xs)
  from Cons.prems(1) have "prefix p ((x # xs) @ c # ys) \<or> sublist p (xs @ c # ys)"
    by (simp add: sublist_Cons_right)
  then show ?case
  proof
    assume "prefix p ((x # xs) @ c # ys)"
    then have "prefix p (x # xs)" using Cons.prems(2) by (rule prefix_skip)
    then show ?thesis by (simp add: prefix_imp_sublist)
  next
    assume "sublist p (xs @ c # ys)"
    with Cons show ?thesis by (auto simp: sublist_Cons_right)
  qed
qed


lemma sublist_join:
  "sublist p (join_lines ls) \<Longrightarrow> p \<noteq> [] \<Longrightarrow> 10 \<notin> set p \<Longrightarrow> \<exists>l\<in>set ls. sublist p l"
proof (induction ls rule: join_lines.induct)
  case 1
  then show ?case by simp
next
  case (2 l)
  then show ?case by simp
next
  case (3 l l' ls)
  from 3(2) have "sublist p (l @ 10 # join_lines (l' # ls))" by simp
  then have "sublist p l \<or> sublist p (join_lines (l' # ls))"
    using 3(4) by (rule sublist_skip)
  with 3 show ?case by auto
qed

lemma sublist_join_mem: "l \<in> set ls \<Longrightarrow> sublist l (join_lines ls)"
proof (induction ls rule: join_lines.induct)
  case 1
  then show ?case by simp
next
  case (2 l')
  then show ?case by simp
next
  case (3 k k' ls)
  show ?case
  proof (cases "l = k")
    case True
    then show ?thesis by (simp add: sublist_append_rightI)
  next
    case False
    with 3 have "sublist l (join_lines (k' # ls))" by simp
    then show ?thesis by (simp add: sublist_append sublist_Cons_right)
  qed
qed

subsection \<open>Trimming\<close>

lemma dropWhile_all_iff:
  "(\<forall>c\<in>set (dropWhile P s). P c) \<longleftrightarrow> (\<forall>c\<in>set s. P c)"
proof
  assume a: "\<forall>c\<in>set (dropWhile P s). P c"
  have "dropWhile P s = []"
  proof (rule ccontr)
    assume ne: "dropWhile P s \<noteq> []"
    then have "\<not> P (hd (dropWhile P s))" by (rule hd_dropWhile)
    moreover from ne have "hd (dropWhile P s) \<in> set (dropWhile P s)" by simp
    ultimately show False using a by blast
  qed
  then show "\<forall>c\<in>set s. P c" by (simp add: dropWhile_eq_Nil_conv)
next
  assume "\<forall>c\<in>set s. P c"
  then show "\<forall>c\<in>set (dropWhile P s). P c" by (auto dest: set_dropWhileD)
qed

lemma trim_Nil_iff: "trim s = [] \<longleftrightarrow> (\<forall>c\<in>set s. isWhiteSpace c)"
proof -
  have "trim s = [] \<longleftrightarrow> (\<forall>c\<in>set (dropWhile isWhiteSpace s). isWhiteSpace c)"
    by (simp add: trim_def dropWhile_eq_Nil_conv)
  then show ?thesis by (simp add: dropWhile_all_iff)
qed

subsection \<open>The matcher\<close>

lemma all_le_Suc_shift: "(\<forall>i\<le>Suc n. P i) \<longleftrightarrow> (P 0 \<and> (\<forall>i\<le>n. P (Suc i)))"
proof
  assume "\<forall>i\<le>Suc n. P i"
  then show "P 0 \<and> (\<forall>i\<le>n. P (Suc i))" by simp
next
  assume a: "P 0 \<and> (\<forall>i\<le>n. P (Suc i))"
  show "\<forall>i\<le>Suc n. P i"
  proof (intro allI impI)
    fix i
    assume "i \<le> Suc n"
    with a show "P i" by (cases i) auto
  qed
qed

lemma search_None_iff:
  "search f e l r = None \<longleftrightarrow> (\<forall>i\<le>length r. run f e (rev (take i r) @ l, drop i r) = [])"
proof (induction r arbitrary: l)
  case Nil
  show ?case by (simp split: list.splits)
next
  case (Cons c cs)
  have "search f e l (c # cs) = None \<longleftrightarrow>
      run f e (l, c # cs) = [] \<and> search f e (c # l) cs = None"
    by (simp split: list.splits)
  then show ?case
    by (simp add: Cons.IH all_le_Suc_shift)
qed

lemma rx_test_iff:
  "rx_test f e s \<longleftrightarrow> (\<exists>pre suf. s = pre @ suf \<and> run f e (rev pre, suf) \<noteq> [])"
proof
  assume "rx_test f e s"
  then obtain i where "i \<le> length s" and "run f e (rev (take i s), drop i s) \<noteq> []"
    by (auto simp: rx_test_def search_None_iff)
  then have "s = take i s @ drop i s \<and> run f e (rev (take i s), drop i s) \<noteq> []" by simp
  then show "\<exists>pre suf. s = pre @ suf \<and> run f e (rev pre, suf) \<noteq> []" by blast
next
  assume "\<exists>pre suf. s = pre @ suf \<and> run f e (rev pre, suf) \<noteq> []"
  then obtain pre suf where s: "s = pre @ suf" and r: "run f e (rev pre, suf) \<noteq> []" by blast
  have "length pre \<le> length s" using s by simp
  moreover have "run f e (rev (take (length pre) s), drop (length pre) s) \<noteq> []"
    using s r by simp
  ultimately show "rx_test f e s"
    unfolding rx_test_def search_None_iff by (metis append_Nil2)
qed

lemma search_Some:
  "search f e l r = Some (l', rest) \<Longrightarrow>
     \<exists>pre suf z zs. r = pre @ suf \<and> l' = rev pre @ l \<and> run f e (l', suf) = z # zs \<and> rest = snd z"
proof (induction r arbitrary: l)
  case Nil
  then show ?case by (auto split: list.splits)
next
  case (Cons c cs)
  show ?case
  proof (cases "run f e (l, c # cs)")
    case Nil
    with Cons.prems have "search f e (c # l) cs = Some (l', rest)" by simp
    from Cons.IH [OF this] obtain pre suf z zs where
      "cs = pre @ suf" "l' = rev pre @ c # l" "run f e (l', suf) = z # zs" "rest = snd z"
      by blast
    then have "c # cs = (c # pre) @ suf \<and> l' = rev (c # pre) @ l \<and>
        run f e (l', suf) = z # zs \<and> rest = snd z" by simp
    then show ?thesis by blast
  next
    case (Cons z zs)
    with Cons.prems have "l' = l" "rest = snd z" by auto
    with Cons have "c # cs = [] @ (c # cs) \<and> l' = rev [] @ l \<and>
        run f e (l', c # cs) = z # zs \<and> rest = snd z" by simp
    then show ?thesis by blast
  qed
qed

lemma lit_match_prefix: "\<not> ignoreCase f \<Longrightarrow> lit_match f p r \<longleftrightarrow> prefix p r"
  by (induction f p r rule: lit_match.induct) (auto simp: char_eq_def)

lemma run_Lit_ne: "run f (Lit p) (l, r) \<noteq> [] \<longleftrightarrow> lit_match f p r"
  by simp

lemma run_Alt_ne: "run f (Alt a b) z \<noteq> [] \<longleftrightarrow> run f a z \<noteq> [] \<or> run f b z \<noteq> []"
  by simp

lemma run_Seq_ne: "run f (Seq a b) z \<noteq> [] \<longleftrightarrow> (\<exists>z'\<in>set (run f a z). run f b z' \<noteq> [])"
  by (auto simp: concat_eq_Nil_conv)

lemma rx_test_Alt: "rx_test f (Alt a b) s \<longleftrightarrow> rx_test f a s \<or> rx_test f b s"
  by (auto simp: rx_test_iff)

lemma rx_test_Lit: "\<not> ignoreCase f \<Longrightarrow> rx_test f (Lit p) s \<longleftrightarrow> sublist p s"
  by (auto simp: rx_test_iff lit_match_prefix sublist_def prefix_def)

lemma run_Bol_Seq:
  "\<not> multiline f \<Longrightarrow> run f (Seq Bol e) (l, r) = (if l = [] then run f e (l, r) else [])"
  by (cases l) auto

lemma rx_test_Bol_Seq: "\<not> multiline f \<Longrightarrow> rx_test f (Seq Bol e) s \<longleftrightarrow> run f e ([], s) \<noteq> []"
  by (auto simp: rx_test_iff run_Bol_Seq simp del: run.simps)

lemma run_Rep_set:
  "z \<in> set (run f (Rep n c) (l, r)) \<longleftrightarrow>
     (\<exists>j. n \<le> j \<and> j \<le> length (takeWhile (in_cls c) r) \<and> z = (rev (take j r) @ l, drop j r))"
  by (auto simp: image_iff)

lemma in_cls_Space [simp]: "in_cls SpaceCls = isWhiteSpace"
  by (rule ext) simp

lemma in_cls_Dot [simp]: "in_cls DotCls = (\<lambda>c. \<not> isLineTerminator c)"
  by (rule ext) simp

lemma run_Rep_Seq_ne:
  "run f (Seq (Rep n c) X) (l, r) \<noteq> [] \<longleftrightarrow>
     (\<exists>j. n \<le> j \<and> j \<le> length (takeWhile (in_cls c) r) \<and>
          run f X (rev (take j r) @ l, drop j r) \<noteq> [])"
proof
  assume "run f (Seq (Rep n c) X) (l, r) \<noteq> []"
  then obtain z' where "z' \<in> set (run f (Rep n c) (l, r))" and ne: "run f X z' \<noteq> []"
    unfolding run_Seq_ne by blast
  then obtain j where "n \<le> j" "j \<le> length (takeWhile (in_cls c) r)"
      "z' = (rev (take j r) @ l, drop j r)"
    unfolding run_Rep_set by blast
  with ne show "\<exists>j. n \<le> j \<and> j \<le> length (takeWhile (in_cls c) r) \<and>
      run f X (rev (take j r) @ l, drop j r) \<noteq> []" by blast
next
  assume "\<exists>j. n \<le> j \<and> j \<le> length (takeWhile (in_cls c) r) \<and>
      run f X (rev (take j r) @ l, drop j r) \<noteq> []"
  then obtain j where j: "n \<le> j" "j \<le> length (takeWhile (in_cls c) r)"
    and ne: "run f X (rev (take j r) @ l, drop j r) \<noteq> []" by blast
  from j have "(rev (take j r) @ l, drop j r) \<in> set (run f (Rep n c) (l, r))"
    unfolding run_Rep_set by blast
  with ne show "run f (Seq (Rep n c) X) (l, r) \<noteq> []"
    unfolding run_Seq_ne by blast
qed

lemma run_Seq_Alt_ne:
  "run f (Seq a (Alt b c)) z \<noteq> [] \<longleftrightarrow> run f (Seq a b) z \<noteq> [] \<or> run f (Seq a c) z \<noteq> []"
  by (auto simp: run_Seq_ne run_Alt_ne simp del: run.simps)

lemma prefix_drop_takeWhile:
  assumes "p \<noteq> []" and "\<not> P (hd p)" and "j \<le> length (takeWhile P r)" and "prefix p (drop j r)"
  shows "j = length (takeWhile P r)"
proof (rule ccontr)
  assume "j \<noteq> length (takeWhile P r)"
  with assms(3) have lt: "j < length (takeWhile P r)" by simp
  then have "takeWhile P r ! j \<in> set (takeWhile P r)" by (rule nth_mem)
  then have "P (takeWhile P r ! j)" by (rule set_takeWhileD [THEN conjunct2])
  with lt have Pj: "P (r ! j)" by (simp add: takeWhile_nth)
  from lt have "j < length r"
    using length_takeWhile_le [of P r] by simp
  then have "drop j r = r ! j # drop (Suc j) r" by (simp add: Cons_nth_drop_Suc)
  with assms(1,4) have "hd p = r ! j" by (cases p) auto
  with Pj assms(2) show False by simp
qed

lemma lead_lit:
  assumes "\<not> ignoreCase f" and "p \<noteq> []" and "\<not> isWhiteSpace (hd p)"
  shows "run f (Seq (Rep 0 SpaceCls) (Lit p)) (l, r) \<noteq> [] \<longleftrightarrow> prefix p (dropWhile isWhiteSpace r)"
proof -
  have "run f (Seq (Rep 0 SpaceCls) (Lit p)) (l, r) \<noteq> [] \<longleftrightarrow>
      (\<exists>j. j \<le> length (takeWhile isWhiteSpace r) \<and> prefix p (drop j r))"
    using assms(1) by (simp add: run_Rep_Seq_ne lit_match_prefix del: run.simps add: run_Lit_ne)
  also have "\<dots> \<longleftrightarrow> prefix p (drop (length (takeWhile isWhiteSpace r)) r)"
    using prefix_drop_takeWhile [of p isWhiteSpace, OF assms(2,3)] by blast
  finally show ?thesis by (simp add: dropWhile_eq_drop)
qed

lemma lead_lit_js:
  assumes "s \<noteq> []" and "\<not> isWhiteSpace (of_char (hd s))"
  shows "run no_flags (Seq (Rep 0 SpaceCls) (Lit (js s))) ([], r) \<noteq> [] \<longleftrightarrow>
     prefix (js s) (dropWhile isWhiteSpace r)"
proof (rule lead_lit)
  show "\<not> ignoreCase no_flags" by (simp add: no_flags_def)
  show "js s \<noteq> []" using assms(1) by (simp add: js_def)
  show "\<not> isWhiteSpace (hd (js s))" using assms by (simp add: js_def hd_map)
qed

lemma no_flags_simps [simp]: "\<not> ignoreCase no_flags" "\<not> multiline no_flags"
  by (simp_all add: no_flags_def)

lemma isCodeLine_iff:
  "isCodeLine line \<longleftrightarrow>
     trim line \<noteq> [] \<and>
     (sublist (js '';'') line \<or> sublist (js ''{'') line \<or> sublist (js ''}'') line \<or>
      sublist (js ''#include'') line \<or> sublist (js ''std::'') line \<or>
      2 \<le> length (takeWhile isWhiteSpace line) \<or>
      prefix (js ''//'') (dropWhile isWhiteSpace line) \<or>
      prefix (js ''#'') (dropWhile isWhiteSpace line) \<or>
      prefix (js ''g++'') (dropWhile isWhiteSpace line) \<or>
      prefix (js ''./'') (dropWhile isWhiteSpace line) \<or>
      prefix (js ''npm '') (dropWhile isWhiteSpace line) \<or>
      prefix (js ''yarn '') (dropWhile isWhiteSpace line) \<or>
      prefix (js ''pnpm '') (dropWhile isWhiteSpace line))"
proof -
  have two: "run no_flags (Rep 2 SpaceCls) ([], line) \<noteq> [] \<longleftrightarrow>
      2 \<le> length (takeWhile isWhiteSpace line)"
    by auto
  have lit:
    "run no_flags (Seq (Rep 0 SpaceCls) (Lit (js ''//''))) ([], line) \<noteq> [] \<longleftrightarrow>
       prefix (js ''//'') (dropWhile isWhiteSpace line)"
    "run no_flags (Seq (Rep 0 SpaceCls) (Lit (js ''#''))) ([], line) \<noteq> [] \<longleftrightarrow>
       prefix (js ''#'') (dropWhile isWhiteSpace line)"
    "run no_flags (Seq (Rep 0 SpaceCls) (Lit (js ''g++''))) ([], line) \<noteq> [] \<longleftrightarrow>
       prefix (js ''g++'') (dropWhile isWhiteSpace line)"
    "run no_flags (Seq (Rep 0 SpaceCls) (Lit (js ''./''))) ([], line) \<noteq> [] \<longleftrightarrow>
       prefix (js ''./'') (dropWhile isWhiteSpace line)"
    "run no_flags (Seq (Rep 0 SpaceCls) (Lit (js ''npm ''))) ([], line) \<noteq> [] \<longleftrightarrow>
       prefix (js ''npm '') (dropWhile isWhiteSpace line)"
    "run no_flags (Seq (Rep 0 SpaceCls) (Lit (js ''yarn ''))) ([], line) \<noteq> [] \<longleftrightarrow>
       prefix (js ''yarn '') (dropWhile isWhiteSpace line)"
    "run no_flags (Seq (Rep 0 SpaceCls) (Lit (js ''pnpm ''))) ([], line) \<noteq> [] \<longleftrightarrow>
       prefix (js ''pnpm '') (dropWhile isWhiteSpace line)"
    by (rule lead_lit_js; simp add: isWhiteSpace_def isLineTerminator_def)+
  show ?thesis
    unfolding isCodeLine_def rx_code_line_def rx_shell_def Let_def
    by (simp add: rx_test_Alt rx_test_Lit rx_test_Bol_Seq run_Seq_Alt_ne lit two
        del: run.simps)
qed

subsection \<open>The loop and its blocks\<close>

lemma scan_block_eq:
  "i \<le> length cl \<Longrightarrow> scan_block cl i = i + length (takeWhile isCodeLine (drop i cl))"
proof (induction cl i rule: scan_block.induct)
  case (1 cl i)
  show ?case
  proof (cases "i < length cl \<and> isCodeLine (cl ! i)")
    case True
    then have d: "drop i cl = cl ! i # drop (Suc i) cl" by (simp add: Cons_nth_drop_Suc)
    from True 1 have "scan_block cl (i + 1) = i + 1 + length (takeWhile isCodeLine (drop (i + 1) cl))"
      by simp
    with True d show ?thesis by (simp add: scan_block_step)
  next
    case False
    show ?thesis
    proof (cases "i < length cl")
      case True
      then have "drop i cl = cl ! i # drop (Suc i) cl" by (simp add: Cons_nth_drop_Suc)
      with False True show ?thesis by (simp add: scan_block_stop)
    next
      case False
      then show ?thesis by (simp add: scan_block_stop)
    qed
  qed
qed

lemma slice_scan_block:
  "i \<le> length cl \<Longrightarrow> slice cl i (scan_block cl i) = takeWhile isCodeLine (drop i cl)"
proof -
  assume "i \<le> length cl"
  then have "slice cl i (scan_block cl i) =
      take (length (takeWhile isCodeLine (drop i cl))) (drop i cl)"
    by (simp add: slice_def scan_block_eq)
  also have "\<dots> = takeWhile isCodeLine (drop i cl)"
    by (rule takeWhile_eq_take [symmetric])
  finally show ?thesis .
qed

lemma drop_scan_block:
  "i \<le> length cl \<Longrightarrow> drop (scan_block cl i) cl = dropWhile isCodeLine (drop i cl)"
  by (simp add: scan_block_eq dropWhile_eq_drop add.commute)

lemma group_loop_pieces:
  "i \<le> length cl \<Longrightarrow> group_loop cl i out = out @ concat (map emit (pieces (drop i cl)))"
proof (induction cl i out rule: group_loop.induct)
  case (1 cl i out)
  show ?case
  proof (cases "i < length cl")
    case False
    then show ?thesis by (subst group_loop.simps) simp
  next
    case lt: True
    then have d: "drop i cl = cl ! i # drop (Suc i) cl" by (simp add: Cons_nth_drop_Suc)
    show ?thesis
    proof (cases "isCodeLine (cl ! i)")
      case True
      have le: "scan_block cl i \<le> length cl" using lt by (simp add: scan_block_le)
      have blk: "slice cl i (scan_block cl i) = cl ! i # takeWhile isCodeLine (drop (Suc i) cl)"
        using lt True d by (simp add: slice_scan_block)
      have rest: "drop (scan_block cl i) cl = dropWhile isCodeLine (drop (Suc i) cl)"
        using lt True d by (simp add: drop_scan_block)
      have "group_loop cl i out =
          group_loop cl (scan_block cl i)
            (out @ [fence @ lang_or_empty (detectLang (slice cl i (scan_block cl i)))]
               @ slice cl i (scan_block cl i) @ [fence])"
        using lt True by (subst group_loop.simps) (simp add: Let_def)
      also have "\<dots> = (out @ [fence @ lang_or_empty (detectLang (slice cl i (scan_block cl i)))]
               @ slice cl i (scan_block cl i) @ [fence])
             @ concat (map emit (pieces (drop (scan_block cl i) cl)))"
        using lt True le by (intro "1.IH"(1)) simp_all
      finally show ?thesis using True d blk rest by simp
    next
      case False
      have "group_loop cl i out = group_loop cl (i + 1) (out @ [cl ! i])"
        using lt False by (subst group_loop.simps) simp
      also have "\<dots> = (out @ [cl ! i]) @ concat (map emit (pieces (drop (i + 1) cl)))"
        using lt False by (intro "1.IH"(2)) simp_all
      finally show ?thesis using False d by simp
    qed
  qed
qed

lemma group_loop_0: "group_loop cl 0 [] = concat (map emit (pieces cl))"
  by (simp add: group_loop_pieces)

lemma pieces_content: "concat (map content_of (pieces ls)) = ls"
  by (induction ls rule: pieces.induct) simp_all

lemma pieces_no_code: "\<forall>l\<in>set ls. \<not> isCodeLine l \<Longrightarrow> concat (map emit (pieces ls)) = ls"
  by (induction ls) simp_all

lemma pieces_set: "set ls \<subseteq> set (concat (map emit (pieces ls)))"
proof (induction ls rule: pieces.induct)
  case 1
  show ?case by simp
next
  case (2 l ls)
  show ?case
  proof (cases "isCodeLine l")
    case True
    have "set ls = set (takeWhile isCodeLine ls) \<union> set (dropWhile isCodeLine ls)"
      by (metis set_append takeWhile_dropWhile_id)
    with True 2 show ?thesis by auto
  next
    case False
    with 2 show ?thesis by auto
  qed
qed

lemma length_takeWhile_dropWhile:
  "length (takeWhile P xs) + length (dropWhile P xs) = length xs"
proof -
  have "length (takeWhile P xs @ dropWhile P xs) = length xs" by simp
  then show ?thesis by (simp only: length_append)
qed

lemma pieces_length_ge: "length ls \<le> length (concat (map emit (pieces ls)))"
proof (induction ls rule: pieces.induct)
  case 1
  show ?case by simp
next
  case (2 l ls)
  show ?case
  proof (cases "isCodeLine l")
    case True
    with 2 have "length (dropWhile isCodeLine ls)
        \<le> length (concat (map emit (pieces (dropWhile isCodeLine ls))))" by simp
    with True length_takeWhile_dropWhile [of isCodeLine ls] show ?thesis by simp
  next
    case False
    with 2 show ?thesis by simp
  qed
qed

lemma pieces_length:
  "\<exists>l\<in>set ls. isCodeLine l \<Longrightarrow> length ls + 2 \<le> length (concat (map emit (pieces ls)))"
proof (induction ls rule: pieces.induct)
  case 1
  then show ?case by simp
next
  case (2 l ls)
  show ?case
  proof (cases "isCodeLine l")
    case True
    with pieces_length_ge [of "dropWhile isCodeLine ls"]
      length_takeWhile_dropWhile [of isCodeLine ls]
    show ?thesis by simp
  next
    case False
    with 2 show ?thesis by auto
  qed
qed

subsection \<open>Fence lines\<close>

lemma detectLang_cases:
  "detectLang b = None \<or> detectLang b = Some (js ''cpp'') \<or> detectLang b = Some (js ''bash'') \<or>
   detectLang b = Some (js ''ts'') \<or> detectLang b = Some (js ''python'')"
  by (simp add: detectLang_def Let_def)

lemma fence_line_cases:
  "fence @ lang_or_empty (detectLang b) \<in>
     {js ''```'', js ''```cpp'', js ''```bash'', js ''```ts'', js ''```python''}"
  using detectLang_cases [of b] by (auto simp: lang_or_empty_def fence_def js_def)

lemmas chr_defs = isLineTerminator_def isWhiteSpace_def isWordChar_def canonicalize_def char_eq_def
  no_flags_def flag_i_def flag_m_def

lemmas rx_defs = rx_copyhljs_line_def rx_copyhljs_tail_def rx_copyhljs_mid_def rx_shell_def rx_hint_def rx_code_line_def
  rx_cpp_def rx_bash_def rx_ts_def rx_python_def rx_fence_def fence_def

lemmas prog_defs = rx_test_def rx_replace_def keep_line_def strip_tail_def cleanedLines_def
  isCodeLine_def detectLang_def lang_or_empty_def slice_def trim_def js_def

lemma fence_lines_props:
  assumes "x \<in> {js ''```'', js ''```cpp'', js ''```bash'', js ''```ts'', js ''```python''}"
  shows "\<not> isCodeLine x" and "keep_line x" and "strip_tail x = x" and "prefix fence x"
    and "10 \<notin> set x" and "trim x \<noteq> js ''Copy''"
    and "\<not> rx_test flag_i rx_copyhljs_line (trim x)"
  using assms by (auto simp: prog_defs rx_defs chr_defs)

subsection \<open>The fallback\<close>

lemma sublist_trim_ne:
  assumes "sublist p l" and "p \<noteq> []" and "\<not> isWhiteSpace (hd p)"
  shows "trim l \<noteq> []"
proof -
  from assms(2) have "hd p \<in> set p" by simp
  with assms(1) have "hd p \<in> set l" using set_mono_sublist by blast
  with assms(3) show ?thesis by (auto simp: trim_Nil_iff)
qed

lemma rx_test_hint_iff:
  "rx_test no_flags rx_hint s \<longleftrightarrow>
     sublist (js '';'') s \<or> sublist (js ''{'') s \<or> sublist (js ''}'') s \<or>
     sublist (js ''#include'') s \<or> sublist (js ''std::'') s"
  by (simp add: rx_hint_def rx_test_Alt rx_test_Lit)

lemma hint_isCodeLine:
  assumes "rx_test no_flags rx_hint l"
  shows "isCodeLine l"
proof -
  have ne: "js '';'' \<noteq> []" "js ''{'' \<noteq> []" "js ''}'' \<noteq> []" "js ''#include'' \<noteq> []"
      "js ''std::'' \<noteq> []"
    by (simp_all add: js_def)
  have ws: "\<not> isWhiteSpace (hd (js '';''))" "\<not> isWhiteSpace (hd (js ''{''))"
      "\<not> isWhiteSpace (hd (js ''}''))" "\<not> isWhiteSpace (hd (js ''#include''))"
      "\<not> isWhiteSpace (hd (js ''std::''))"
    by (simp_all add: js_def isWhiteSpace_def isLineTerminator_def)
  from assms have "trim l \<noteq> []"
    unfolding rx_test_hint_iff using ne ws by (metis sublist_trim_ne)
  with assms show ?thesis
    unfolding rx_test_hint_iff isCodeLine_iff by blast
qed

lemma hint_join:
  assumes "rx_test no_flags rx_hint (join_lines ls)"
  shows "\<exists>l\<in>set ls. rx_test no_flags rx_hint l"
proof -
  have ne: "js '';'' \<noteq> []" "js ''{'' \<noteq> []" "js ''}'' \<noteq> []" "js ''#include'' \<noteq> []"
      "js ''std::'' \<noteq> []"
    by (simp_all add: js_def)
  have nl: "10 \<notin> set (js '';'')" "10 \<notin> set (js ''{'')" "10 \<notin> set (js ''}'')"
      "10 \<notin> set (js ''#include'')" "10 \<notin> set (js ''std::'')"
    by (simp_all add: js_def)
  from assms show ?thesis
    unfolding rx_test_hint_iff using ne nl by (blast dest: sublist_join)
qed

lemma match_count_zero_aux:
  "(\<forall>i\<le>length r. run f e (rev (take i r) @ l, drop i r) = []) \<Longrightarrow> match_count f e k l r = 0"
proof (induction r arbitrary: k l)
  case Nil
  then show ?case by simp
next
  case (Cons c cs)
  from Cons.prems have here: "run f e (l, c # cs) = []"
    and later: "\<forall>i\<le>length cs. run f e (rev (take i cs) @ c # l, drop i cs) = []"
    by (simp_all add: all_le_Suc_shift)
  from later have "match_count f e k' (c # l) cs = 0" for k' by (rule Cons.IH)
  with here show ?case by simp
qed

lemma match_count_zero: "\<not> rx_test f e s \<Longrightarrow> match_count f e 0 [] s = 0"
  by (rule match_count_zero_aux) (simp add: rx_test_def search_None_iff)

lemma fence_emitted:
  "\<exists>l\<in>set ls. isCodeLine l \<Longrightarrow> fence \<in> set (concat (map emit (pieces ls)))"
proof (induction ls rule: pieces.induct)
  case 1
  then show ?case by simp
next
  case (2 l ls)
  then show ?case by (cases "isCodeLine l") auto
qed

lemma fence_test:
  assumes "\<exists>l\<in>set ls. isCodeLine l"
  shows "rx_test no_flags rx_fence (join_lines (concat (map emit (pieces ls))))"
proof -
  from assms have "fence \<in> set (concat (map emit (pieces ls)))" by (rule fence_emitted)
  then have "sublist fence (join_lines (concat (map emit (pieces ls))))"
    by (rule sublist_join_mem)
  then show ?thesis by (simp add: rx_fence_def rx_test_Lit)
qed

lemma normalize_pieces:
  "normalizeAIContent content = join_lines (concat (map emit (pieces (cleanedLines content))))"
proof (cases "\<exists>l\<in>set (cleanedLines content). isCodeLine l")
  case True
  then have "rx_test no_flags rx_fence
      (join_lines (concat (map emit (pieces (cleanedLines content)))))"
    by (rule fence_test)
  then show ?thesis by (simp add: normalizeAIContent_def group_loop_0 Let_def)
next
  case False
  then have out: "concat (map emit (pieces (cleanedLines content))) = cleanedLines content"
    by (simp add: pieces_no_code)
  have "\<not> rx_test no_flags rx_hint (join_lines (cleanedLines content))"
    using False hint_join hint_isCodeLine by blast
  then have "match_count no_flags rx_hint 0 [] (join_lines (cleanedLines content)) = 0"
    by (rule match_count_zero)
  with out show ?thesis by (simp add: normalizeAIContent_def group_loop_0 Let_def)
qed

lemma normalize_staged: "normalizeAIContent content = staged content"
  by (simp add: normalize_pieces staged_def group_loop_0)

subsection \<open>The artifact stripper\<close>

lemma flag_i_simps [simp]: "ignoreCase flag_i" "\<not> multiline flag_i"
  by (simp_all add: flag_i_def)

lemma run_Seq_set:
  "z \<in> set (run f (Seq a b) z0) \<longleftrightarrow> (\<exists>z1\<in>set (run f a z0). z \<in> set (run f b z1))"
  by auto

lemma run_Eol_set: "\<not> multiline f \<Longrightarrow> z \<in> set (run f Eol (l, r)) \<longleftrightarrow> r = [] \<and> z = (l, [])"
  by (cases r) auto

lemma run_Lit_set:
  "z \<in> set (run f (Lit p) (l, r)) \<longleftrightarrow>
     lit_match f p r \<and> z = (rev (take (length p) r) @ l, drop (length p) r)"
  by auto

lemma lit_match_Cons:
  "lit_match f (p # ps) r \<longleftrightarrow> (\<exists>c cs. r = c # cs \<and> char_eq f p c \<and> lit_match f ps cs)"
  by (cases r) auto

lemma lit_match_append: "lit_match f p t \<Longrightarrow> lit_match f p (t @ x)"
  by (induction f p t rule: lit_match.induct) auto

lemma lit_match_length: "lit_match f p t \<Longrightarrow> length p \<le> length t"
  by (induction f p t rule: lit_match.induct) auto

lemma char_eq_C: "char_eq flag_i 67 h \<Longrightarrow> \<not> isWhiteSpace h"
  by (auto simp: char_eq_def canonicalize_def isWhiteSpace_def isLineTerminator_def
      split: if_splits)

lemma char_eq_s: "char_eq flag_i 115 c \<Longrightarrow> isWordChar c"
  by (auto simp: char_eq_def canonicalize_def isWordChar_def split: if_splits)

lemma space_not_word: "isWhiteSpace c \<Longrightarrow> \<not> isWordChar c"
  by (auto simp: isWhiteSpace_def isLineTerminator_def isWordChar_def)

lemma tail_match:
  assumes "z \<in> set (run flag_i rx_copyhljs_tail (l, suf))"
  shows "snd z = [] \<and> (\<exists>w W. suf = w # W \<and> isWhiteSpace w \<and> (\<exists>c\<in>set W. \<not> isWhiteSpace c))"
proof -
  from assms obtain z1 z2 z3 z4 where
    1: "z1 \<in> set (run flag_i (Rep 1 SpaceCls) (l, suf))" and
    2: "z2 \<in> set (run flag_i (Lit (js ''Copyhljs'')) z1)" and
    3: "z3 \<in> set (run flag_i WordB z2)" and
    4: "z4 \<in> set (run flag_i (Rep 0 DotCls) z3)" and
    5: "z \<in> set (run flag_i Eol z4)"
    unfolding rx_copyhljs_tail_def run_Seq_set by blast
  from 5 have fin: "snd z = []" by (cases z4) (simp add: run_Eol_set del: run.simps)
  from 1 obtain j where j: "1 \<le> j" "j \<le> length (takeWhile isWhiteSpace suf)"
    and z1: "z1 = (rev (take j suf) @ l, drop j suf)"
    unfolding run_Rep_set by auto
  from 2 z1 have "lit_match flag_i (js ''Copyhljs'') (drop j suf)"
    by (simp only: run_Lit_set)
  then obtain h t where d: "drop j suf = h # t" and h: "char_eq flag_i 67 h"
    by (auto simp: js_def lit_match_Cons)
  from j obtain w W where suf: "suf = w # W" and w: "isWhiteSpace w"
    by (cases suf) (auto split: if_splits)
  from j suf d have "drop (j - 1) W = h # t" by (cases j) auto
  then have "h \<in> set (drop (j - 1) W)" by simp
  then have "h \<in> set W" by (rule in_set_dropD)
  with h have "\<exists>c\<in>set W. \<not> isWhiteSpace c" using char_eq_C by blast
  with fin suf w show ?thesis by blast
qed

lemma strip_tail_cases:
  "strip_tail L = L \<or>
   (\<exists>A w W. L = A @ w # W \<and> strip_tail L = A \<and> isWhiteSpace w \<and> (\<exists>c\<in>set W. \<not> isWhiteSpace c))"
proof (cases "search flag_i rx_copyhljs_tail [] L")
  case None
  then show ?thesis by (simp add: strip_tail_def rx_replace_def)
next
  case (Some res)
  obtain l' rest where res: "res = (l', rest)" by (cases res)
  from Some res have s: "search flag_i rx_copyhljs_tail [] L = Some (l', rest)" by simp
  from search_Some [OF s] obtain pre suf z zs where
    L: "L = pre @ suf" and l': "l' = rev pre" and
    r: "run flag_i rx_copyhljs_tail (l', suf) = z # zs" and rest: "rest = snd z"
    by auto
  from r have "z \<in> set (run flag_i rx_copyhljs_tail (l', suf))" by simp
  from tail_match [OF this] rest obtain w W where
    "rest = []" "suf = w # W" "isWhiteSpace w" "\<exists>c\<in>set W. \<not> isWhiteSpace c"
    by auto
  moreover from s l' have "strip_tail L = pre @ rest"
    by (simp add: strip_tail_def rx_replace_def)
  ultimately show ?thesis using L by auto
qed

lemma strip_tail_prefix: "prefix (strip_tail L) L"
proof -
  from strip_tail_cases [of L] consider "strip_tail L = L"
    | A w W where "L = A @ w # W" "strip_tail L = A" by blast
  then show ?thesis
  proof cases
    case 1
    then show ?thesis by simp
  next
    case 2
    have "prefix A (A @ w # W)" by simp
    with 2 show ?thesis by simp
  qed
qed

lemma copy_line_iff:
  "rx_test flag_i rx_copyhljs_line t \<longleftrightarrow>
     lit_match flag_i (js ''Copyhljs'') t \<and> (drop 8 t = [] \<or> \<not> isWordChar (hd (drop 8 t)))"
proof -
  have len: "length (js ''Copyhljs'') = 8" by (simp add: js_def)
  have left: "(case rev (take 8 t) of [] \<Rightarrow> False | c # _ \<Rightarrow> isWordChar c)"
    if "lit_match flag_i (js ''Copyhljs'') t"
    using that by (auto simp: js_def lit_match_Cons char_eq_s)
  have "rx_test flag_i rx_copyhljs_line t \<longleftrightarrow>
      run flag_i (Seq (Lit (js ''Copyhljs'')) WordB) ([], t) \<noteq> []"
    by (simp add: rx_copyhljs_line_def rx_test_Bol_Seq del: run.simps)
  also have "\<dots> \<longleftrightarrow> lit_match flag_i (js ''Copyhljs'') t \<and>
      run flag_i WordB (rev (take 8 t), drop 8 t) \<noteq> []"
    unfolding run_Seq_ne by (auto simp: len simp del: run.simps(7))
  also have "\<dots> \<longleftrightarrow> lit_match flag_i (js ''Copyhljs'') t \<and>
      (drop 8 t = [] \<or> \<not> isWordChar (hd (drop 8 t)))"
    using left by (cases "drop 8 t") auto
  finally show ?thesis .
qed

lemma copy_line_extend:
  assumes "rx_test flag_i rx_copyhljs_line t" and "x \<noteq> []" and "\<not> isWordChar (hd x)"
  shows "rx_test flag_i rx_copyhljs_line (t @ x)"
proof -
  from assms(1) have lm: "lit_match flag_i (js ''Copyhljs'') t"
    and b: "drop 8 t = [] \<or> \<not> isWordChar (hd (drop 8 t))"
    by (simp_all add: copy_line_iff)
  from lm have "length (js ''Copyhljs'') \<le> length t" by (rule lit_match_length)
  then have len: "8 \<le> length t" by (simp add: js_def)
  from lm have "lit_match flag_i (js ''Copyhljs'') (t @ x)" by (rule lit_match_append)
  moreover have "\<not> isWordChar (hd (drop 8 (t @ x)))"
    using b len assms(2,3) by (cases "drop 8 t") auto
  ultimately show ?thesis by (simp add: copy_line_iff)
qed

lemma trim_extend:
  assumes "trim A \<noteq> []" and "isWhiteSpace w" and "\<exists>c\<in>set W. \<not> isWhiteSpace c"
  shows "\<exists>X. trim (A @ w # W) = trim A @ X \<and> X \<noteq> [] \<and> isWhiteSpace (hd X)"
proof -
  define A' where "A' = dropWhile isWhiteSpace A"
  define Z where "Z = rev (takeWhile isWhiteSpace (rev A'))"
  define W' where "W' = rev (dropWhile isWhiteSpace (rev W))"
  from assms(1) obtain a where a: "a \<in> set A" "\<not> isWhiteSpace a"
    by (auto simp: trim_Nil_iff)
  then have left: "dropWhile isWhiteSpace (A @ w # W) = A' @ w # W"
    by (simp add: A'_def dropWhile_append1)
  from assms(3) obtain c where "c \<in> set (rev W)" "\<not> isWhiteSpace c" by auto
  then have "dropWhile isWhiteSpace (rev W @ w # rev A') =
      dropWhile isWhiteSpace (rev W) @ w # rev A'"
    by (simp add: dropWhile_append1)
  then have right: "rev (dropWhile isWhiteSpace (rev (A' @ w # W))) = A' @ w # W'"
    by (simp add: W'_def)
  have "rev (dropWhile isWhiteSpace (rev A')) @ rev (takeWhile isWhiteSpace (rev A')) =
      rev (rev A')"
    by (simp only: rev_append [symmetric] takeWhile_dropWhile_id)
  then have A': "A' = trim A @ Z" by (simp add: trim_def A'_def Z_def)
  have Z: "\<forall>c\<in>set Z. isWhiteSpace c" by (auto simp: Z_def dest: set_takeWhileD)
  have "trim (A @ w # W) = trim A @ (Z @ w # W')"
    using left right A' by (simp add: trim_def)
  moreover have "Z @ w # W' \<noteq> []" by simp
  moreover have "isWhiteSpace (hd (Z @ w # W'))" using Z assms(2) by (cases Z) auto
  ultimately show ?thesis by blast
qed

lemma keep_line_iff:
  "keep_line L \<longleftrightarrow> trim L \<noteq> js ''Copy'' \<and> \<not> rx_test flag_i rx_copyhljs_line (trim L)"
  by (simp add: keep_line_def Let_def)

lemma kept_stripped_not_copyhljs:
  assumes "keep_line L"
  shows "\<not> rx_test flag_i rx_copyhljs_line (trim (strip_tail L))"
proof
  assume c: "rx_test flag_i rx_copyhljs_line (trim (strip_tail L))"
  from strip_tail_cases [of L] show False
  proof
    assume "strip_tail L = L"
    with c assms show False by (simp add: keep_line_iff)
  next
    assume "\<exists>A w W. L = A @ w # W \<and> strip_tail L = A \<and> isWhiteSpace w \<and>
        (\<exists>c\<in>set W. \<not> isWhiteSpace c)"
    then obtain A w W where L: "L = A @ w # W" and A: "strip_tail L = A"
      and w: "isWhiteSpace w" and W: "\<exists>c\<in>set W. \<not> isWhiteSpace c" by blast
    from c A have cA: "rx_test flag_i rx_copyhljs_line (trim A)" by simp
    then have "lit_match flag_i (js ''Copyhljs'') (trim A)" by (simp add: copy_line_iff)
    then have "length (js ''Copyhljs'') \<le> length (trim A)" by (rule lit_match_length)
    then have "trim A \<noteq> []" by (auto simp: js_def)
    from trim_extend [OF this w W] obtain X where
      X: "trim (A @ w # W) = trim A @ X" "X \<noteq> []" "isWhiteSpace (hd X)" by blast
    from X(3) have "\<not> isWordChar (hd X)" by (rule space_not_word)
    with cA X(2) have "rx_test flag_i rx_copyhljs_line (trim A @ X)"
      by (rule copy_line_extend)
    with X(1) L assms show False by (simp add: keep_line_iff)
  qed
qed

subsection \<open>The lines of the output\<close>

lemma fence_in_fence_lines: "fence \<in> fence_lines"
  by (simp add: fence_lines_def fence_def)

lemma emit_mem:
  "x \<in> set (concat (map emit (pieces ls))) \<Longrightarrow> x \<in> set ls \<or> x \<in> fence_lines"
proof (induction ls rule: pieces.induct)
  case 1
  then show ?case by simp
next
  case (2 l ls)
  show ?case
  proof (cases "isCodeLine l")
    case True
    with 2 consider "x = fence @ lang_or_empty (detectLang (l # takeWhile isCodeLine ls))"
      | "x = l" | "x \<in> set (takeWhile isCodeLine ls)" | "x = fence"
      | "x \<in> set (dropWhile isCodeLine ls) \<or> x \<in> fence_lines"
      by auto
    then show ?thesis
    proof cases
      case 1
      then show ?thesis using fence_line_cases by (simp add: fence_lines_def)
    next
      case 2
      then show ?thesis by simp
    next
      case 3
      then show ?thesis by (auto dest: set_takeWhileD)
    next
      case 4
      then show ?thesis by (simp add: fence_in_fence_lines)
    next
      case 5
      then show ?thesis by (auto dest: set_dropWhileD)
    qed
  next
    case False
    with 2 show ?thesis by auto
  qed
qed

lemma cleaned_line_origin:
  "l \<in> set (cleanedLines content) \<Longrightarrow>
     \<exists>L\<in>set (split_lines content). keep_line L \<and> strip_tail L = l"
  by (auto simp: cleanedLines_def)

lemma cleaned_no_nl: "l \<in> set (cleanedLines content) \<Longrightarrow> 10 \<notin> set l"
proof -
  assume "l \<in> set (cleanedLines content)"
  then obtain L where L: "L \<in> set (split_lines content)" and l: "strip_tail L = l"
    using cleaned_line_origin by blast
  from l have "prefix l L" using strip_tail_prefix [of L] by simp
  then have "set l \<subseteq> set L" by (rule set_mono_prefix)
  with split_lines_no_nl [OF L] show ?thesis by blast
qed

lemma fence_lines_no_nl: "x \<in> fence_lines \<Longrightarrow> 10 \<notin> set x"
  unfolding fence_lines_def by (rule fence_lines_props)

lemma emit_no_nl:
  "\<forall>l\<in>set ls. 10 \<notin> set l \<Longrightarrow> \<forall>x\<in>set (concat (map emit (pieces ls))). 10 \<notin> set x"
  using emit_mem fence_lines_no_nl by blast

lemma emit_ne: "ls \<noteq> [] \<Longrightarrow> concat (map emit (pieces ls)) \<noteq> []"
  using pieces_length_ge [of ls] by (cases ls) auto

lemma out_lines:
  assumes "cleanedLines content \<noteq> []"
  shows "split_lines (normalizeAIContent content) =
     concat (map emit (pieces (cleanedLines content)))"
  unfolding normalize_pieces
  using assms by (intro split_join emit_ne emit_no_nl) (auto dest: cleaned_no_nl)

lemma out_empty: "cleanedLines content = [] \<Longrightarrow> normalizeAIContent content = []"
  by (simp add: normalize_pieces)

lemma out_line_cases:
  assumes "x \<in> set (split_lines (normalizeAIContent content))"
  shows "x = [] \<or> x \<in> set (cleanedLines content) \<or> x \<in> fence_lines"
proof (cases "cleanedLines content = []")
  case True
  with assms show ?thesis by (simp add: out_empty)
next
  case False
  with assms show ?thesis using emit_mem by (auto simp: out_lines)
qed

lemma join_emit_eq_iff:
  assumes "ls \<noteq> []" and "\<forall>l\<in>set ls. 10 \<notin> set l"
  shows "join_lines (concat (map emit (pieces ls))) = join_lines ls \<longleftrightarrow>
     (\<forall>l\<in>set ls. \<not> isCodeLine l)"
proof
  assume "\<forall>l\<in>set ls. \<not> isCodeLine l"
  then show "join_lines (concat (map emit (pieces ls))) = join_lines ls"
    by (simp add: pieces_no_code)
next
  assume eq: "join_lines (concat (map emit (pieces ls))) = join_lines ls"
  have "split_lines (join_lines (concat (map emit (pieces ls)))) = concat (map emit (pieces ls))"
    using assms by (intro split_join emit_ne emit_no_nl)
  moreover have "split_lines (join_lines ls) = ls" using assms by (rule split_join)
  ultimately have "concat (map emit (pieces ls)) = ls" using eq by simp
  then have "length (concat (map emit (pieces ls))) = length ls" by simp
  with pieces_length [of ls] show "\<forall>l\<in>set ls. \<not> isCodeLine l" by fastforce
qed

subsection \<open>Balanced fencing\<close>

lemma balanced_skip:
  "\<forall>l\<in>set xs. \<not> sublist fence l \<Longrightarrow> balanced b (xs @ ys) = balanced b ys"
  by (induction xs) auto

lemma emit_balanced:
  "\<forall>l\<in>set ls. \<not> sublist fence l \<Longrightarrow> balanced False (concat (map emit (pieces ls)))"
proof (induction ls rule: pieces.induct)
  case 1
  show ?case by simp
next
  case (2 l ls)
  show ?case
  proof (cases "isCodeLine l")
    case True
    have free: "\<forall>x\<in>set (l # takeWhile isCodeLine ls). \<not> sublist fence x"
      using "2.prems" by (auto dest: set_takeWhileD)
    have "\<forall>x\<in>set (dropWhile isCodeLine ls). \<not> sublist fence x"
      using "2.prems" by (auto dest: set_dropWhileD)
    with True 2 have rest: "balanced False (concat (map emit (pieces (dropWhile isCodeLine ls))))"
      by simp
    have "balanced True ((l # takeWhile isCodeLine ls) @
        fence # concat (map emit (pieces (dropWhile isCodeLine ls))))"
      unfolding balanced_skip [OF free] using rest by simp
    with True show ?thesis by simp
  next
    case False
    with 2 show ?thesis by simp
  qed
qed

lemma emit_fence_count:
  "\<forall>l\<in>set ls. \<not> sublist fence l \<Longrightarrow>
     even (length (filter (sublist fence) (concat (map emit (pieces ls)))))"
proof (induction ls rule: pieces.induct)
  case 1
  show ?case by simp
next
  case (2 l ls)
  show ?case
  proof (cases "isCodeLine l")
    case True
    have free: "\<not> sublist fence l" "filter (sublist fence) (takeWhile isCodeLine ls) = []"
      using "2.prems" by (auto simp: filter_empty_conv dest: set_takeWhileD)
    have "\<forall>x\<in>set (dropWhile isCodeLine ls). \<not> sublist fence x"
      using "2.prems" by (auto dest: set_dropWhileD)
    with True 2 have "even (length (filter (sublist fence)
        (concat (map emit (pieces (dropWhile isCodeLine ls))))))"
      by simp
    with True free show ?thesis by simp
  next
    case False
    with 2 show ?thesis by simp
  qed
qed

lemma cleaned_fence_free:
  assumes "\<forall>l\<in>set (split_lines content). \<not> sublist fence l"
  shows "\<forall>l\<in>set (cleanedLines content). \<not> sublist fence l"
proof
  fix l
  assume "l \<in> set (cleanedLines content)"
  then obtain L where L: "L \<in> set (split_lines content)" and l: "strip_tail L = l"
    using cleaned_line_origin by blast
  from l have "sublist l L" using strip_tail_prefix [of L] by auto
  with assms L show "\<not> sublist fence l" using sublist_order.order.trans by blast
qed

subsection \<open>Fixed points\<close>

lemma split_lines_keeps_self:
  assumes "cleanedLines content = split_lines content"
  shows "normalizeAIContent content = content \<longleftrightarrow>
     (\<forall>l\<in>set (split_lines content). \<not> isCodeLine l)"
proof -
  have ne: "split_lines content \<noteq> []" by (rule split_lines_ne)
  have nl: "\<forall>l\<in>set (split_lines content). 10 \<notin> set l" by (simp add: split_lines_no_nl)
  have "normalizeAIContent content = content \<longleftrightarrow>
      join_lines (concat (map emit (pieces (split_lines content)))) =
        join_lines (split_lines content)"
    by (simp add: normalize_pieces assms join_split)
  also have "\<dots> \<longleftrightarrow> (\<forall>l\<in>set (split_lines content). \<not> isCodeLine l)"
    using ne nl by (rule join_emit_eq_iff)
  finally show ?thesis .
qed

lemma fence_lines_not_code: "x \<in> fence_lines \<Longrightarrow> \<not> isCodeLine x"
  unfolding fence_lines_def by (rule fence_lines_props)

lemma fence_lines_stable: "x \<in> fence_lines \<Longrightarrow> keep_line x \<and> strip_tail x = x"
  unfolding fence_lines_def using fence_lines_props(2,3) by blast

lemma cleaned_stable:
  assumes "\<forall>l\<in>set ls. keep_line l \<and> strip_tail l = l"
  shows "map strip_tail (filter keep_line ls) = ls"
  using assms by (induction ls) auto

lemma normalize_empty: "normalizeAIContent [] = []"
  by (simp add: normalizeAIContent_def prog_defs rx_defs chr_defs scan_block.simps
      group_loop.simps)

subsection \<open>The mid-line artifact\<close>

lemma search_Some_min:
  "search f e l r = Some (l', rest) \<Longrightarrow>
     \<exists>pre suf. r = pre @ suf \<and> l' = rev pre @ l \<and> run f e (l', suf) \<noteq> [] \<and>
       rest = snd (hd (run f e (l', suf))) \<and>
       (\<forall>p1 p2. pre = p1 @ p2 \<and> p2 \<noteq> [] \<longrightarrow> run f e (rev p1 @ l, p2 @ suf) = [])"
proof (induction r arbitrary: l)
  case Nil
  then have "l' = l" and "run f e (l, []) \<noteq> []" and "rest = snd (hd (run f e (l, [])))"
    by (auto split: list.splits)
  then show ?case by (intro exI [of _ "[]"]) simp
next
  case (Cons c cs)
  show ?case
  proof (cases "run f e (l, c # cs) = []")
    case True
    with Cons.prems have "search f e (c # l) cs = Some (l', rest)" by simp
    from Cons.IH [OF this] obtain pre suf where
      cs: "cs = pre @ suf" and l': "l' = rev pre @ c # l" and ne: "run f e (l', suf) \<noteq> []"
      and rest: "rest = snd (hd (run f e (l', suf)))"
      and mn: "\<And>p1 p2. pre = p1 @ p2 \<Longrightarrow> p2 \<noteq> [] \<Longrightarrow> run f e (rev p1 @ c # l, p2 @ suf) = []"
      by blast
    have "run f e (rev p1 @ l, p2 @ suf) = []" if a: "c # pre = p1 @ p2" "p2 \<noteq> []" for p1 p2
    proof (cases p1)
      case Nil
      with a cs have "p2 @ suf = c # cs" by simp
      with Nil True show ?thesis by simp
    next
      case (Cons d p1')
      with a have "pre = p1' @ p2" and "d = c" by simp_all
      with mn [of p1' p2] a(2) Cons show ?thesis by simp
    qed
    then have "\<forall>p1 p2. c # pre = p1 @ p2 \<and> p2 \<noteq> [] \<longrightarrow> run f e (rev p1 @ l, p2 @ suf) = []"
      by blast
    with cs l' ne rest show ?thesis
      by (intro exI [of _ "c # pre"] exI [of _ suf]) simp
  next
    case False
    with Cons.prems have "l' = l" and "rest = snd (hd (run f e (l, c # cs)))"
      by (auto split: list.splits)
    with False show ?thesis
      by (intro exI [of _ "[]"] exI [of _ "c # cs"]) simp
  qed
qed

lemma run_Seq_Lit:
  "run f (Seq (Lit p) e) (l, r) =
     (if lit_match f p r then run f e (rev (take (length p) r) @ l, drop (length p) r) else [])"
  by simp

lemma run_Seq_WordB: "run f (Seq WordB e) z = (if run f WordB z \<noteq> [] then run f e z else [])"
  by (cases z) simp

lemma copyhljs_left_word:
  "lit_match flag_i (js ''Copyhljs'') t \<Longrightarrow>
     (case rev (take 8 t) @ l of [] \<Rightarrow> False | c # _ \<Rightarrow> isWordChar c)"
  by (auto simp: js_def lit_match_Cons char_eq_s)

lemma run_WordB_after_copyhljs:
  assumes "lit_match flag_i (js ''Copyhljs'') t"
  shows "run f WordB (rev (take 8 t) @ l, drop 8 t) \<noteq> [] \<longleftrightarrow>
     drop 8 t = [] \<or> \<not> isWordChar (hd (drop 8 t))"
  using copyhljs_left_word [OF assms, of l] by (cases "drop 8 t") auto

lemma word_run_iff:
  "run flag_i (Seq (Lit (js ''Copyhljs'')) WordB) (l, t) \<noteq> [] \<longleftrightarrow>
     rx_test flag_i rx_copyhljs_line t"
proof -
  have len: "length (js ''Copyhljs'') = 8" by (simp add: js_def)
  show ?thesis
    unfolding copy_line_iff
    using run_WordB_after_copyhljs [of t flag_i l]
    by (auto simp: len simp del: run.simps(7))
qed

lemma dot_eol_iff:
  assumes "\<not> multiline f"
  shows "run f (Seq (Rep 0 DotCls) Eol) (l, r) \<noteq> [] \<longleftrightarrow> (\<forall>c\<in>set r. \<not> isLineTerminator c)"
proof
  assume "run f (Seq (Rep 0 DotCls) Eol) (l, r) \<noteq> []"
  then obtain j where j: "j \<le> length (takeWhile (\<lambda>c. \<not> isLineTerminator c) r)"
    and e: "run f Eol (rev (take j r) @ l, drop j r) \<noteq> []"
    unfolding run_Rep_Seq_ne by auto
  from e assms have "drop j r = []" by (cases "drop j r") auto
  then have "length r \<le> j" by simp
  with j have "length r \<le> length (takeWhile (\<lambda>c. \<not> isLineTerminator c) r)" by simp
  with length_takeWhile_dropWhile [of "\<lambda>c. \<not> isLineTerminator c" r]
  have "length (dropWhile (\<lambda>c. \<not> isLineTerminator c) r) = 0" by linarith
  then have "dropWhile (\<lambda>c. \<not> isLineTerminator c) r = []" by (simp only: length_0_conv)
  then show "\<forall>c\<in>set r. \<not> isLineTerminator c" by (simp only: dropWhile_eq_Nil_conv)
next
  assume a: "\<forall>c\<in>set r. \<not> isLineTerminator c"
  then have tw: "takeWhile (in_cls DotCls) r = r" by (simp add: takeWhile_eq_all_conv)
  have "length r \<le> length (takeWhile (in_cls DotCls) r)" unfolding tw by (rule order_refl)
  moreover have "run f Eol (rev (take (length r) r) @ l, drop (length r) r) \<noteq> []" by simp
  ultimately show "run f (Seq (Rep 0 DotCls) Eol) (l, r) \<noteq> []"
    unfolding run_Rep_Seq_ne by blast
qed

lemma tail_run_iff:
  "run flag_i (Seq (Lit (js ''Copyhljs'')) (Seq WordB (Seq (Rep 0 DotCls) Eol))) (l, t) \<noteq> [] \<longleftrightarrow>
     rx_test flag_i rx_copyhljs_line t \<and> (\<forall>c\<in>set (drop 8 t). \<not> isLineTerminator c)"
proof -
  have len: "length (js ''Copyhljs'') = 8" by (simp add: js_def)
  show ?thesis
    unfolding copy_line_iff run_Seq_Lit run_Seq_WordB
    using run_WordB_after_copyhljs [of t flag_i l]
    by (auto simp: len dot_eol_iff simp del: run.simps)
qed

lemma copyhljs_commit:
  assumes "lit_match flag_i (js ''Copyhljs'') (drop j r)"
    and "j \<le> length (takeWhile isWhiteSpace r)"
  shows "j = length (takeWhile isWhiteSpace r)"
proof (rule ccontr)
  assume "j \<noteq> length (takeWhile isWhiteSpace r)"
  with assms(2) have lt: "j < length (takeWhile isWhiteSpace r)" by simp
  then have "takeWhile isWhiteSpace r ! j \<in> set (takeWhile isWhiteSpace r)" by (rule nth_mem)
  then have "isWhiteSpace (takeWhile isWhiteSpace r ! j)"
    by (rule set_takeWhileD [THEN conjunct2])
  with lt have ws: "isWhiteSpace (r ! j)" by (simp add: takeWhile_nth)
  from lt have "j < length r" using length_takeWhile_le [of isWhiteSpace r] by simp
  then have "drop j r = r ! j # drop (Suc j) r" by (simp add: Cons_nth_drop_Suc)
  with assms(1) have "char_eq flag_i 67 (r ! j)" by (simp add: js_def)
  then have "\<not> isWhiteSpace (r ! j)" by (rule char_eq_C)
  with ws show False by simp
qed

lemma spaces_then:
  assumes q: "\<And>l t. run flag_i X (l, t) \<noteq> [] \<longleftrightarrow> Q t"
    and lm: "\<And>t. Q t \<Longrightarrow> lit_match flag_i (js ''Copyhljs'') t"
  shows "run flag_i (Seq (Rep 1 SpaceCls) X) (l, r) \<noteq> [] \<longleftrightarrow>
     takeWhile isWhiteSpace r \<noteq> [] \<and> Q (dropWhile isWhiteSpace r)"
proof
  assume "run flag_i (Seq (Rep 1 SpaceCls) X) (l, r) \<noteq> []"
  then obtain j where j: "1 \<le> j" "j \<le> length (takeWhile isWhiteSpace r)"
    and Q: "Q (drop j r)"
    unfolding run_Rep_Seq_ne q by auto
  from lm [OF Q] j(2) have "j = length (takeWhile isWhiteSpace r)" by (rule copyhljs_commit)
  with j Q show "takeWhile isWhiteSpace r \<noteq> [] \<and> Q (dropWhile isWhiteSpace r)"
    by (auto simp: dropWhile_eq_drop)
next
  assume a: "takeWhile isWhiteSpace r \<noteq> [] \<and> Q (dropWhile isWhiteSpace r)"
  then have "1 \<le> length (takeWhile isWhiteSpace r)" by (cases "takeWhile isWhiteSpace r") auto
  moreover from a have "Q (drop (length (takeWhile isWhiteSpace r)) r)"
    by (simp add: dropWhile_eq_drop)
  ultimately show "run flag_i (Seq (Rep 1 SpaceCls) X) (l, r) \<noteq> []"
    unfolding run_Rep_Seq_ne q by auto
qed

lemma mid_run_iff:
  "run flag_i rx_copyhljs_mid (l, r) \<noteq> [] \<longleftrightarrow>
     takeWhile isWhiteSpace r \<noteq> [] \<and> rx_test flag_i rx_copyhljs_line (dropWhile isWhiteSpace r)"
  unfolding rx_copyhljs_mid_def
  by (rule spaces_then [where Q = "rx_test flag_i rx_copyhljs_line"])
    (simp_all only: word_run_iff copy_line_iff)

lemma tail_run_full_iff:
  "run flag_i rx_copyhljs_tail (l, r) \<noteq> [] \<longleftrightarrow>
     takeWhile isWhiteSpace r \<noteq> [] \<and>
     (rx_test flag_i rx_copyhljs_line (dropWhile isWhiteSpace r) \<and>
      (\<forall>c\<in>set (drop 8 (dropWhile isWhiteSpace r)). \<not> isLineTerminator c))"
  unfolding rx_copyhljs_tail_def
  by (rule spaces_then [where Q = "\<lambda>t. rx_test flag_i rx_copyhljs_line t \<and>
        (\<forall>c\<in>set (drop 8 t). \<not> isLineTerminator c)"])
    (simp_all only: tail_run_iff copy_line_iff)


lemma split_lines_subset: "l \<in> set (split_lines s) \<Longrightarrow> set l \<subseteq> set s"
proof (induction s arbitrary: l)
  case Nil
  then show ?case by simp
next
  case (Cons c cs)
  obtain k ks where sp: "split_lines cs = k # ks"
    using split_lines_ne [of cs] by (cases "split_lines cs") auto
  from Cons sp show ?case by (fastforce split: if_splits)
qed

lemma tail_of_mid:
  assumes m: "takeWhile isWhiteSpace p \<noteq> []"
    and c: "rx_test flag_i rx_copyhljs_line (dropWhile isWhiteSpace p)"
    and s: "s = [] \<or> isWhiteSpace (hd s)"
    and nolt: "\<forall>c\<in>set (p @ s). \<not> isLineTerminator c"
  shows "run flag_i rx_copyhljs_tail (l, p @ s) \<noteq> []"
proof -
  define t where "t = dropWhile isWhiteSpace p"
  from c have "lit_match flag_i (js ''Copyhljs'') t" by (simp add: t_def copy_line_iff)
  then have "length (js ''Copyhljs'') \<le> length t" by (rule lit_match_length)
  then have ne: "t \<noteq> []" by (auto simp: js_def)
  then have "\<not> isWhiteSpace (hd t)" unfolding t_def by (rule hd_dropWhile)
  moreover from ne have "hd t \<in> set p"
    unfolding t_def using set_dropWhileD [of "hd (dropWhile isWhiteSpace p)" isWhiteSpace p]
    by simp
  ultimately have tw: "takeWhile isWhiteSpace (p @ s) = takeWhile isWhiteSpace p"
    and dw: "dropWhile isWhiteSpace (p @ s) = t @ s"
    by (simp_all add: takeWhile_append1 dropWhile_append1 t_def)
  have ext: "rx_test flag_i rx_copyhljs_line (t @ s)"
  proof (cases "s = []")
    case True
    with c show ?thesis by (simp add: t_def)
  next
    case False
    with s have "\<not> isWordChar (hd s)" by (simp add: space_not_word)
    with c False show ?thesis unfolding t_def by (intro copy_line_extend)
  qed
  have "set (drop 8 (t @ s)) \<subseteq> set (p @ s)"
    using set_drop_subset [of 8 "t @ s"] set_dropWhileD [of _ isWhiteSpace p]
    by (auto simp: t_def)
  with nolt have "\<forall>c\<in>set (drop 8 (t @ s)). \<not> isLineTerminator c" by blast
  with m ext show ?thesis unfolding tail_run_full_iff tw dw by simp
qed

lemma strip_tail_no_mid:
  assumes nolt: "\<forall>c\<in>set L. \<not> isLineTerminator c"
  shows "\<not> rx_test flag_i rx_copyhljs_mid (strip_tail L)"
proof (cases "search flag_i rx_copyhljs_tail [] L")
  case None
  then have st: "strip_tail L = L" by (simp add: strip_tail_def rx_replace_def)
  from None have none: "run flag_i rx_copyhljs_tail (rev pre, suf) = []" if "L = pre @ suf" for pre suf
    using that by (auto simp: search_None_iff dest!: spec [of _ "length pre"])
  show ?thesis
  proof
    assume "rx_test flag_i rx_copyhljs_mid (strip_tail L)"
    with st obtain pre suf where L: "L = pre @ suf"
      and m: "run flag_i rx_copyhljs_mid (rev pre, suf) \<noteq> []"
      by (auto simp: rx_test_iff)
    from m have "takeWhile isWhiteSpace suf \<noteq> []"
      and "rx_test flag_i rx_copyhljs_line (dropWhile isWhiteSpace suf)"
      unfolding mid_run_iff by simp_all
    moreover have "\<forall>c\<in>set (suf @ []). \<not> isLineTerminator c" using nolt L by simp
    ultimately have "run flag_i rx_copyhljs_tail (rev pre, suf @ []) \<noteq> []"
      by (intro tail_of_mid) simp_all
    with none [OF L] show False by simp
  qed
next
  case (Some res)
  obtain l' rest where res: "res = (l', rest)" by (cases res)
  from Some res have s: "search flag_i rx_copyhljs_tail [] L = Some (l', rest)" by simp
  from search_Some_min [OF s] obtain pre suf where
    L: "L = pre @ suf" and l': "l' = rev pre" and
    ne: "run flag_i rx_copyhljs_tail (l', suf) \<noteq> []" and
    rest: "rest = snd (hd (run flag_i rx_copyhljs_tail (l', suf)))" and
    mn: "\<And>p1 p2. pre = p1 @ p2 \<Longrightarrow> p2 \<noteq> [] \<Longrightarrow>
           run flag_i rx_copyhljs_tail (rev p1, p2 @ suf) = []"
    by auto
  from ne have "hd (run flag_i rx_copyhljs_tail (l', suf)) \<in> set (run flag_i rx_copyhljs_tail (l', suf))"
    by (rule hd_in_set)
  from tail_match [OF this] rest obtain w W where
    r0: "rest = []" and suf: "suf = w # W" and w: "isWhiteSpace w"
    by auto
  from s l' r0 have st: "strip_tail L = pre" by (simp add: strip_tail_def rx_replace_def)
  show ?thesis
  proof
    assume "rx_test flag_i rx_copyhljs_mid (strip_tail L)"
    with st obtain p1 p2 where pre: "pre = p1 @ p2"
      and m: "run flag_i rx_copyhljs_mid (rev p1, p2) \<noteq> []"
      by (auto simp: rx_test_iff)
    from m have tw: "takeWhile isWhiteSpace p2 \<noteq> []"
      and c: "rx_test flag_i rx_copyhljs_line (dropWhile isWhiteSpace p2)"
      unfolding mid_run_iff by simp_all
    from tw have p2: "p2 \<noteq> []" by auto
    have "\<forall>c\<in>set (p2 @ suf). \<not> isLineTerminator c" using nolt L pre by simp
    with tw c have "run flag_i rx_copyhljs_tail (rev p1, p2 @ suf) \<noteq> []"
      by (intro tail_of_mid) (simp_all add: suf w)
    with mn [OF pre p2] show False by simp
  qed
qed

lemma fence_lines_no_mid: "x \<in> fence_lines \<Longrightarrow> \<not> rx_test flag_i rx_copyhljs_mid x"
  unfolding fence_lines_def
  by (auto simp: rx_test_def rx_copyhljs_mid_def js_def chr_defs)

lemma empty_no_mid: "\<not> rx_test flag_i rx_copyhljs_mid []"
  by (simp add: rx_test_def rx_copyhljs_mid_def js_def chr_defs)

lemma lf_only_lines:
  assumes "lf_only content" and "L \<in> set (split_lines content)"
  shows "\<forall>c\<in>set L. \<not> isLineTerminator c"
proof
  fix c
  assume c: "c \<in> set L"
  with split_lines_subset [OF assms(2)] have "c \<in> set content" by blast
  with assms(1) have "isLineTerminator c \<longrightarrow> c = 10" by (simp add: lf_only_def)
  moreover from split_lines_no_nl [OF assms(2)] c have "c \<noteq> 10" by blast
  ultimately show "\<not> isLineTerminator c" by blast
qed


lemma fallback_unreachable: "\<not> fallback_applies (staged content)"
proof (cases "\<exists>l\<in>set (cleanedLines content). isCodeLine l")
  case True
  then have "rx_test no_flags rx_fence (staged content)"
    by (simp add: staged_def group_loop_0 fence_test)
  then show ?thesis by (simp add: fallback_applies_def)
next
  case False
  then have "staged content = join_lines (cleanedLines content)"
    by (simp add: staged_def group_loop_0 pieces_no_code)
  moreover have "\<not> rx_test no_flags rx_hint (join_lines (cleanedLines content))"
    using False hint_join hint_isCodeLine by blast
  ultimately have "match_count no_flags rx_hint 0 [] (staged content) = 0"
    by (simp add: match_count_zero)
  then show ?thesis by (simp add: fallback_applies_def)
qed

section \<open>The claims\<close>

text \<open>
  C1, as stated, fails: the program has no notion of an existing fence. On the fenced
  block \<^verbatim>\<open>"```cpp\nint x;\n```"\<close> the line between the fences is code-like and is wrapped
  in a new fence, so the output is not the input.
\<close>

theorem existing_fence_rewrapped:
  "normalizeAIContent (js ''```cpp\<newline>int x;\<newline>```'') =
     js ''```cpp\<newline>```\<newline>int x;\<newline>```\<newline>```'' \<and>
   normalizeAIContent (js ''```cpp\<newline>int x;\<newline>```'') \<noteq> js ''```cpp\<newline>int x;\<newline>```''"
  by (simp add: normalizeAIContent_def prog_defs rx_defs chr_defs scan_block.simps
      group_loop.simps)

text \<open>
  C1, amended. For every input that the artifact stripper leaves as it is, the output
  is the input, byte for byte, if and only if no line of the input is code-like. So a
  fenced block passes through unchanged exactly when none of the lines of the input,
  inside or outside the fences, is code-like.
\<close>

theorem identity_iff_no_code_line:
  assumes "cleanedLines content = split_lines content"
  shows "normalizeAIContent content = content \<longleftrightarrow>
     (\<forall>l\<in>set (split_lines content). \<not> isCodeLine l)"
proof -
  have "join_lines (concat (map emit (pieces (split_lines content)))) =
      join_lines (split_lines content) \<longleftrightarrow>
      (\<forall>l\<in>set (split_lines content). \<not> isCodeLine l)"
    by (intro join_emit_eq_iff split_lines_ne) (simp add: split_lines_no_nl)
  with assms show ?thesis by (simp add: normalize_pieces join_split)
qed

theorem identity_iff_no_code_line_witness:
  "cleanedLines (js ''```\<newline>hello\<newline>```'') = split_lines (js ''```\<newline>hello\<newline>```'') \<and>
   list_all (\<lambda>l. \<not> isCodeLine l) (split_lines (js ''```\<newline>hello\<newline>```'')) \<and>
   normalizeAIContent (js ''```\<newline>hello\<newline>```'') = js ''```\<newline>hello\<newline>```''"
proof -
  have h: "cleanedLines (js ''```\<newline>hello\<newline>```'') = split_lines (js ''```\<newline>hello\<newline>```'')"
    by (simp add: prog_defs rx_defs chr_defs)
  have n: "list_all (\<lambda>l. \<not> isCodeLine l) (split_lines (js ''```\<newline>hello\<newline>```''))"
    by (simp add: prog_defs rx_defs chr_defs)
  then have "\<forall>l\<in>set (split_lines (js ''```\<newline>hello\<newline>```'')). \<not> isCodeLine l"
    by (simp only: list_all_iff)
  with identity_iff_no_code_line [OF h] h n show ?thesis by blast
qed

text \<open>
  C2, as stated, fails: an output that holds a fence is not a fixed point. The output
  for \<^verbatim>\<open>"x = 1;"\<close> is the line in a fence, and a second pass wraps the line again.
\<close>

theorem second_pass_rewraps:
  "normalizeAIContent (js ''x = 1;'') = js ''```\<newline>x = 1;\<newline>```'' \<and>
   normalizeAIContent (normalizeAIContent (js ''x = 1;'')) =
     js ''```\<newline>```\<newline>x = 1;\<newline>```\<newline>```''"
proof -
  have a: "normalizeAIContent (js ''x = 1;'') = js ''```\<newline>x = 1;\<newline>```''"
    by (simp add: normalizeAIContent_def prog_defs rx_defs chr_defs scan_block.simps
        group_loop.simps)
  have b: "normalizeAIContent (js ''```\<newline>x = 1;\<newline>```'') =
      js ''```\<newline>```\<newline>x = 1;\<newline>```\<newline>```''"
    by (simp add: normalizeAIContent_def prog_defs rx_defs chr_defs scan_block.simps
        group_loop.simps)
  from a b show ?thesis by simp
qed

text \<open>
  C2, amended. For every document whose artifact-stripped lines the artifact stripper
  would leave in place and unchanged, normalizing the normalized document gives it back
  if and only if the first pass met no code-like line, that is, added no fence.
\<close>

theorem idempotent_iff_no_code_line:
  assumes "\<forall>l\<in>set (cleanedLines d). keep_line l \<and> strip_tail l = l"
  shows "normalizeAIContent (normalizeAIContent d) = normalizeAIContent d \<longleftrightarrow>
     (\<forall>l\<in>set (cleanedLines d). \<not> isCodeLine l)"
proof (cases "cleanedLines d = []")
  case True
  then show ?thesis by (simp add: out_empty normalize_empty)
next
  case False
  define out where "out = concat (map emit (pieces (cleanedLines d)))"
  have lines: "split_lines (normalizeAIContent d) = out"
    unfolding out_def using False by (rule out_lines)
  have "\<forall>x\<in>set out. keep_line x \<and> strip_tail x = x"
    unfolding out_def using emit_mem assms fence_lines_stable by blast
  then have "cleanedLines (normalizeAIContent d) = split_lines (normalizeAIContent d)"
    unfolding cleanedLines_def lines by (rule cleaned_stable)
  then have "normalizeAIContent (normalizeAIContent d) = normalizeAIContent d \<longleftrightarrow>
      (\<forall>l\<in>set out. \<not> isCodeLine l)"
    unfolding lines [symmetric] by (rule split_lines_keeps_self)
  also have "\<dots> \<longleftrightarrow> (\<forall>l\<in>set (cleanedLines d). \<not> isCodeLine l)"
  proof
    assume "\<forall>l\<in>set out. \<not> isCodeLine l"
    then show "\<forall>l\<in>set (cleanedLines d). \<not> isCodeLine l"
      unfolding out_def using pieces_set by blast
  next
    assume "\<forall>l\<in>set (cleanedLines d). \<not> isCodeLine l"
    then show "\<forall>l\<in>set out. \<not> isCodeLine l"
      unfolding out_def by (simp add: pieces_no_code)
  qed
  finally show ?thesis .
qed

theorem idempotent_iff_no_code_line_witness:
  "list_all (\<lambda>l. keep_line l \<and> strip_tail l = l) (cleanedLines (js ''Hello\<newline>world'')) \<and>
   list_all (\<lambda>l. \<not> isCodeLine l) (cleanedLines (js ''Hello\<newline>world'')) \<and>
   normalizeAIContent (normalizeAIContent (js ''Hello\<newline>world'')) =
     normalizeAIContent (js ''Hello\<newline>world'')"
proof -
  have c: "cleanedLines (js ''Hello\<newline>world'') = [js ''Hello'', js ''world'']"
    by (simp add: prog_defs rx_defs chr_defs)
  have h: "list_all (\<lambda>l. keep_line l \<and> strip_tail l = l) (cleanedLines (js ''Hello\<newline>world''))"
    unfolding c by (simp add: prog_defs rx_defs chr_defs)
  have n: "list_all (\<lambda>l. \<not> isCodeLine l) (cleanedLines (js ''Hello\<newline>world''))"
    unfolding c by (simp add: prog_defs rx_defs chr_defs)
  from h have h': "\<forall>l\<in>set (cleanedLines (js ''Hello\<newline>world'')). keep_line l \<and> strip_tail l = l"
    by (simp only: list_all_iff)
  from n have "\<forall>l\<in>set (cleanedLines (js ''Hello\<newline>world'')). \<not> isCodeLine l"
    by (simp only: list_all_iff)
  with idempotent_iff_no_code_line [OF h'] h n show ?thesis by blast
qed

text \<open>
  C3. Partition invariant: for every input, the output is the blocks of the
  artifact-stripped lines emitted in order, a prose line verbatim and a run of code-like
  lines between a fence-open and a fence-close line, and the contents of the blocks in
  order are the artifact-stripped lines. So deleting the added fence lines from the
  output gives back the artifact-stripped input. (The fallback is never taken, so the
  statement covers every result.)
\<close>

theorem partition_invariant:
  "normalizeAIContent content =
     join_lines (concat (map emit (pieces (cleanedLines content)))) \<and>
   concat (map content_of (pieces (cleanedLines content))) = cleanedLines content"
  by (simp add: normalize_pieces pieces_content)

text \<open>
  C4. The third rule of the language sniffer looks for \<^verbatim>\<open>import\<close> and \<^verbatim>\<open>export\<close> at
  the start of the joined text only (its expression has no \<^verbatim>\<open>m\<close> flag, unlike that of
  the second rule): a block whose second line starts with \<^verbatim>\<open>import \<close> gets no tag, while
  the same two lines in the other order are tagged \<^verbatim>\<open>ts\<close>.
\<close>

theorem detectLang_import_second_line:
  "detectLang [js ''// setup'', js ''import x;''] = None \<and>
   detectLang [js ''import x;'', js ''// setup''] = Some (js ''ts'') \<and>
   normalizeAIContent (js ''// setup\<newline>import x;'') = js ''```\<newline>// setup\<newline>import x;\<newline>```''"
  by (simp add: normalizeAIContent_def prog_defs rx_defs chr_defs scan_block.simps group_loop.simps)

text \<open>
  C5. The classifier: \<^verbatim>\<open>isCodeLine\<close> is true exactly for the lines that are non-empty
  after trimming and show one of the signals that the specification lists; a line that
  is empty after trimming (empty, or whitespace only) is never code-like.
\<close>

theorem isCodeLine_spec:
  "(isCodeLine line \<longleftrightarrow> spec_isCodeLine line) \<and> (trim line = [] \<longrightarrow> \<not> isCodeLine line)"
  by (simp add: isCodeLine_iff spec_isCodeLine_def)

theorem isCodeLine_spec_witness:
  "trim (js ''   '') = [] \<and> 2 \<le> length (takeWhile isWhiteSpace (js ''   '')) \<and>
   \<not> isCodeLine (js ''   '') \<and> \<not> spec_isCodeLine (js ''   '')"
proof -
  have h: "trim (js ''   '') = []" by (simp add: trim_def js_def isWhiteSpace_def)
  have i: "2 \<le> length (takeWhile isWhiteSpace (js ''   ''))"
    by (simp add: js_def isWhiteSpace_def)
  from isCodeLine_spec [of "js ''   ''"] h i show ?thesis by blast
qed


text \<open>
  C7, as stated, fails twice. The line \<^verbatim>\<open>Copy Copyhljs\<close> survives the filter (it is
  neither \<^verbatim>\<open>Copy\<close> nor does it start with \<^verbatim>\<open>Copyhljs\<close>), the map then strips its tail,
  and the output is the line \<^verbatim>\<open>Copy\<close>. And the tail strip needs the rest of the line to
  hold no line terminator: a line that ends with a carriage return, as every line of a
  text with CRLF line ends does, keeps its mid-line artifact.
\<close>

theorem artifacts_left_in_output:
  "split_lines (normalizeAIContent (js ''Copy Copyhljs'')) = [js ''Copy''] \<and>
   trim (js ''Copy'') = js ''Copy'' \<and>
   split_lines (normalizeAIContent (js ''int x; Copyhljs cpp'' @ [13])) =
     [js ''```'', js ''int x; Copyhljs cpp'' @ [13], js ''```''] \<and>
   rx_test flag_i rx_copyhljs_mid (js ''int x; Copyhljs cpp'' @ [13])"
  by (simp add: normalizeAIContent_def prog_defs rx_defs chr_defs scan_block.simps
      group_loop.simps)

text \<open>
  C7, amended. For every input, no line of the output has trimmed content that matches
  the \<^verbatim>\<open>Copyhljs\<close> prefix pattern; an output line whose trimmed content is \<^verbatim>\<open>Copy\<close> is
  never an input line passed through, only what the strip of the trailing \<^verbatim>\<open>Copyhljs\<close>
  text left of a longer input line that survived the filter; and when the input holds
  no line terminator but the line feeds between its lines, no line of the output holds
  the mid-line artifact (whitespace, then \<^verbatim>\<open>Copyhljs\<close> as a whole word): its trailing
  substring is stripped.
\<close>

theorem artifacts_removed:
  "(\<forall>l\<in>set (split_lines (normalizeAIContent content)).
      \<not> rx_test flag_i rx_copyhljs_line (trim l)) \<and>
   (\<forall>l\<in>set (split_lines (normalizeAIContent content)).
      trim l = js ''Copy'' \<longrightarrow>
      (\<exists>L\<in>set (split_lines content). keep_line L \<and> strip_tail L = l \<and> L \<noteq> l)) \<and>
   (lf_only content \<longrightarrow>
      (\<forall>l\<in>set (split_lines (normalizeAIContent content)).
         \<not> rx_test flag_i rx_copyhljs_mid l))"
proof (intro conjI ballI impI)
  fix l
  assume "l \<in> set (split_lines (normalizeAIContent content))"
  then consider "l = []" | "l \<in> set (cleanedLines content)" | "l \<in> fence_lines"
    using out_line_cases by blast
  then show "\<not> rx_test flag_i rx_copyhljs_line (trim l)"
  proof cases
    case 1
    then show ?thesis by (simp add: copy_line_iff trim_def js_def)
  next
    case 2
    then obtain L where "keep_line L" "strip_tail L = l" using cleaned_line_origin by blast
    then show ?thesis using kept_stripped_not_copyhljs by blast
  next
    case 3
    then show ?thesis unfolding fence_lines_def by (rule fence_lines_props)
  qed
next
  fix l
  assume "l \<in> set (split_lines (normalizeAIContent content))" and c: "trim l = js ''Copy''"
  then consider "l = []" | "l \<in> set (cleanedLines content)" | "l \<in> fence_lines"
    using out_line_cases by blast
  then show "\<exists>L\<in>set (split_lines content). keep_line L \<and> strip_tail L = l \<and> L \<noteq> l"
  proof cases
    case 1
    with c show ?thesis by (simp add: trim_def js_def)
  next
    case 2
    then obtain L where L: "L \<in> set (split_lines content)" "keep_line L" "strip_tail L = l"
      using cleaned_line_origin by blast
    from L(2) c have "L \<noteq> l" by (auto simp: keep_line_iff)
    with L show ?thesis by blast
  next
    case 3
    then have "trim l \<noteq> js ''Copy''" unfolding fence_lines_def by (rule fence_lines_props)
    with c show ?thesis by simp
  qed
next
  fix l
  assume lf: "lf_only content" and "l \<in> set (split_lines (normalizeAIContent content))"
  then consider "l = []" | "l \<in> set (cleanedLines content)" | "l \<in> fence_lines"
    using out_line_cases by blast
  then show "\<not> rx_test flag_i rx_copyhljs_mid l"
  proof cases
    case 1
    then show ?thesis by (simp add: empty_no_mid)
  next
    case 2
    then obtain L where L: "L \<in> set (split_lines content)" "strip_tail L = l"
      using cleaned_line_origin by blast
    from lf L(1) have "\<forall>c\<in>set L. \<not> isLineTerminator c" by (rule lf_only_lines)
    then have "\<not> rx_test flag_i rx_copyhljs_mid (strip_tail L)" by (rule strip_tail_no_mid)
    with L(2) show ?thesis by simp
  next
    case 3
    then show ?thesis by (rule fence_lines_no_mid)
  qed
qed

theorem artifacts_removed_witness:
  "lf_only (js ''Copy\<newline>int x; Copyhljs cpp\<newline>Copy Copyhljs'') \<and>
   rx_test flag_i rx_copyhljs_mid (js ''int x; Copyhljs cpp'') \<and>
   split_lines (normalizeAIContent (js ''Copy\<newline>int x; Copyhljs cpp\<newline>Copy Copyhljs'')) =
     [js ''```'', js ''int x;'', js ''```'', js ''Copy''] \<and>
   \<not> rx_test flag_i rx_copyhljs_mid (js ''int x;'') \<and>
   trim (js ''Copy'') = js ''Copy'' \<and>
   \<not> rx_test flag_i rx_copyhljs_line (trim (js ''Copy'')) \<and>
   (\<exists>L\<in>set (split_lines (js ''Copy\<newline>int x; Copyhljs cpp\<newline>Copy Copyhljs'')).
      keep_line L \<and> strip_tail L = js ''Copy'' \<and> L \<noteq> js ''Copy'')"
proof -
  have lf: "lf_only (js ''Copy\<newline>int x; Copyhljs cpp\<newline>Copy Copyhljs'')"
    by (simp add: lf_only_def js_def isLineTerminator_def)
  have m: "rx_test flag_i rx_copyhljs_mid (js ''int x; Copyhljs cpp'')"
    by (simp add: rx_test_def rx_copyhljs_mid_def js_def chr_defs)
  have s: "split_lines (normalizeAIContent (js ''Copy\<newline>int x; Copyhljs cpp\<newline>Copy Copyhljs'')) =
      [js ''```'', js ''int x;'', js ''```'', js ''Copy'']"
    by (simp add: normalizeAIContent_def prog_defs rx_defs chr_defs scan_block.simps
        group_loop.simps)
  have t: "trim (js ''Copy'') = js ''Copy''"
    by (simp add: trim_def js_def isWhiteSpace_def isLineTerminator_def)
  have c: "js ''Copy'' \<in> set (split_lines (normalizeAIContent (js ''Copy\<newline>int x; Copyhljs cpp\<newline>Copy Copyhljs'')))"
    and x: "js ''int x;'' \<in> set (split_lines (normalizeAIContent (js ''Copy\<newline>int x; Copyhljs cpp\<newline>Copy Copyhljs'')))"
    unfolding s by simp_all
  from artifacts_removed [of "js ''Copy\<newline>int x; Copyhljs cpp\<newline>Copy Copyhljs''"] lf m s t c x
  show ?thesis by blast
qed

text \<open>
  C8. Priority of the language sniffer: a block whose joined text contains
  \<^verbatim>\<open>#include\<close> is tagged \<^verbatim>\<open>cpp\<close> and never \<^verbatim>\<open>ts\<close>, whatever else it holds, so also
  when one of its lines starts with \<^verbatim>\<open>import \<close>.
\<close>

theorem detectLang_include_first:
  assumes "sublist (js ''#include'') (join_lines block)"
  shows "detectLang block = Some (js ''cpp'') \<and> detectLang block \<noteq> Some (js ''ts'')"
proof -
  from assms have "rx_test no_flags rx_cpp (join_lines block)"
    by (simp add: rx_cpp_def rx_test_Alt rx_test_Lit)
  then show ?thesis by (simp add: detectLang_def js_def)
qed

theorem detectLang_include_first_witness:
  "sublist (js ''#include'') (join_lines [js ''import a;'', js ''#include <b>'']) \<and>
   prefix (js ''import '') (js ''import a;'') \<and>
   rx_test no_flags rx_ts (join_lines [js ''import a;'', js ''#include <b>'']) \<and>
   detectLang [js ''import a;'', js ''#include <b>''] = Some (js ''cpp'')"
proof -
  have h: "sublist (js ''#include'') (join_lines [js ''import a;'', js ''#include <b>''])"
    by (simp add: js_def sublist_code)
  have t: "rx_test no_flags rx_ts (join_lines [js ''import a;'', js ''#include <b>''])"
    by (simp add: rx_test_def rx_defs chr_defs js_def)
  have p: "prefix (js ''import '') (js ''import a;'')" by (simp add: js_def)
  from detectLang_include_first [OF h] h t p show ?thesis by simp
qed

text \<open>
  C9. The scenario of the specification: on
  \<^verbatim>\<open>"Here is code:\nint main() {\n    return 0;\n}\nDone."\<close> the output keeps
  \<^verbatim>\<open>Here is code:\<close> and \<^verbatim>\<open>Done.\<close> as prose lines and has the three lines between them,
  verbatim and in order, inside one fence that opens with the tag \<^verbatim>\<open>cpp\<close>.
\<close>

theorem scenario_cpp:
  "normalizeAIContent
     (js ''Here is code:\<newline>int main() {\<newline>    return 0;\<newline>}\<newline>Done.'') =
   js ''Here is code:\<newline>```cpp\<newline>int main() {\<newline>    return 0;\<newline>}\<newline>```\<newline>Done.''"
  by (simp add: normalizeAIContent_def prog_defs rx_defs chr_defs scan_block.simps group_loop.simps)

text \<open>
  C10. Balanced fencing: for every input none of whose lines holds a triple backtick,
  the lines of the output that hold a fence marker are even in number and alternate
  between an opening line, which starts with the marker, and the bare closing marker.
\<close>

theorem output_fences_balanced:
  assumes "\<forall>l\<in>set (split_lines content). \<not> sublist fence l"
  shows "even (length (filter (sublist fence) (split_lines (normalizeAIContent content)))) \<and>
     balanced False (split_lines (normalizeAIContent content))"
proof (cases "cleanedLines content = []")
  case True
  then have "split_lines (normalizeAIContent content) = [[]]" by (simp add: out_empty)
  then show ?thesis by (simp add: fence_def js_def)
next
  case False
  from assms have "\<forall>l\<in>set (cleanedLines content). \<not> sublist fence l"
    by (rule cleaned_fence_free)
  then show ?thesis
    unfolding out_lines [OF False] by (simp add: emit_balanced emit_fence_count)
qed

theorem output_fences_balanced_witness:
  "list_all (\<lambda>l. \<not> sublist fence l) (split_lines (js ''a;\<newline>text\<newline>b;'')) \<and>
   split_lines (normalizeAIContent (js ''a;\<newline>text\<newline>b;'')) =
     [js ''```'', js ''a;'', js ''```'', js ''text'', js ''```'', js ''b;'', js ''```''] \<and>
   even (length (filter (sublist fence) (split_lines (normalizeAIContent (js ''a;\<newline>text\<newline>b;''))))) \<and>
   balanced False (split_lines (normalizeAIContent (js ''a;\<newline>text\<newline>b;'')))"
proof -
  have h: "\<forall>l\<in>set (split_lines (js ''a;\<newline>text\<newline>b;'')). \<not> sublist fence l"
    by (simp add: js_def fence_def sublist_code)
  have o: "normalizeAIContent (js ''a;\<newline>text\<newline>b;'') =
      js ''```\<newline>a;\<newline>```\<newline>text\<newline>```\<newline>b;\<newline>```''"
    by (simp add: normalizeAIContent_def prog_defs rx_defs chr_defs scan_block.simps
        group_loop.simps)
  have s: "split_lines (normalizeAIContent (js ''a;\<newline>text\<newline>b;'')) =
     [js ''```'', js ''a;'', js ''```'', js ''text'', js ''```'', js ''b;'', js ''```'']"
    unfolding o by (simp add: js_def)
  from h have l: "list_all (\<lambda>l. \<not> sublist fence l) (split_lines (js ''a;\<newline>text\<newline>b;''))"
    by (simp only: list_all_iff)
  from output_fences_balanced [OF h] l s show ?thesis by blast
qed

section \<open>Further properties\<close>

text \<open>
  X1. The prose scenario of the specification: \<^verbatim>\<open>"Hello, how are you?"\<close> has no
  code-like line and is returned unchanged, without a fence.
\<close>

theorem scenario_prose_unchanged:
  "normalizeAIContent (js ''Hello, how are you?'') = js ''Hello, how are you?''"
  by (simp add: normalizeAIContent_def prog_defs rx_defs chr_defs scan_block.simps
      group_loop.simps)

text \<open>
  X2. The empty input gives the empty output, and so does an input that consists of
  artifact lines only.
\<close>

theorem empty_and_artifact_only_inputs:
  "normalizeAIContent [] = [] \<and>
   normalizeAIContent (js ''Copy\<newline>Copyhljs language-cpp'') = []"
  by (simp add: normalizeAIContent_def prog_defs rx_defs chr_defs scan_block.simps
      group_loop.simps)

end
